theory Spec2Isabelle
  imports Main "HOL-Library.AList"
begin

section \<open>JavaScript strings\<close>

text \<open>
  A JavaScript string is modelled as a HOL \<open>string\<close>, read as a sequence of code units
  below 256 (the Latin-1 range). The table keys, the route names and the member names of
  \<open>Object.prototype\<close> are all ASCII. On this range the built-ins used by the source are:
  \<^item> \<open>toLowerCase\<close>: \<open>A..Z\<close> and the upper-case letters \<open>0xC0..0xDE\<close> (without the
    multiplication sign \<open>0xD7\<close>) move up by 32, every other code unit stays;
  \<^item> \<open>trim\<close>: removes leading and trailing white space and line terminators, which
    below 256 are \<open>0x09..0x0D\<close>, \<open>0x20\<close> and \<open>0xA0\<close>.
\<close>

definition toLowerChar :: "char \<Rightarrow> char" where
  "toLowerChar c =
     (let n = (of_char c :: nat)
      in if (65 \<le> n \<and> n \<le> 90) \<or> (192 \<le> n \<and> n \<le> 222 \<and> n \<noteq> 215)
         then char_of (n + 32) else c)"

definition toLowerCase :: "string \<Rightarrow> string" where
  "toLowerCase s = map toLowerChar s"

definition isWhiteSpace :: "char \<Rightarrow> bool" where
  "isWhiteSpace c =
     (let n = (of_char c :: nat) in (9 \<le> n \<and> n \<le> 13) \<or> n = 32 \<or> n = 160)"

definition trim :: "string \<Rightarrow> string" where
  "trim s = rev (dropWhile isWhiteSpace (rev (dropWhile isWhiteSpace s)))"

definition startsWith :: "string \<Rightarrow> string \<Rightarrow> bool" where
  "startsWith s p = (take (length p) s = p)"

fun includesStr :: "string \<Rightarrow> string \<Rightarrow> bool" where
  "includesStr [] p = (p = [])"
| "includesStr (c # s) p = (startsWith (c # s) p \<or> includesStr s p)"

section \<open>Flag lookup (countryFlags.js)\<close>

text \<open>
  A flag glyph is a pair of regional indicator symbols (U+1F1E6 .. U+1F1FF). It is written
  here by the two letters \<open>A..Z\<close> the symbols stand for, so the glyph of Afghanistan is
  \<open>''AF''\<close>. \<open>COUNTRY_FLAGS\<close> lists the own properties of the object literal in source order,
  which is the order \<open>Object.entries\<close> visits them in.
\<close>

definition COUNTRY_FLAGS :: "(string \<times> string) list" where
  "COUNTRY_FLAGS =
    [(''Afghanistan'', ''AF''),
     (''Albania'', ''AL''),
     (''Algeria'', ''DZ''),
     (''Argentina'', ''AR''),
     (''Australia'', ''AU''),
     (''Austria'', ''AT''),
     (''Bangladesh'', ''BD''),
     (''Belgium'', ''BE''),
     (''Brazil'', ''BR''),
     (''Canada'', ''CA''),
     (''Chile'', ''CL''),
     (''China'', ''CN''),
     (''Colombia'', ''CO''),
     (''Czech Republic'', ''CZ''),
     (''Denmark'', ''DK''),
     (''Egypt'', ''EG''),
     (''Finland'', ''FI''),
     (''France'', ''FR''),
     (''Germany'', ''DE''),
     (''Greece'', ''GR''),
     (''Hong Kong'', ''HK''),
     (''Hungary'', ''HU''),
     (''India'', ''IN''),
     (''Indonesia'', ''ID''),
     (''Iran'', ''IR''),
     (''Iraq'', ''IQ''),
     (''Ireland'', ''IE''),
     (''Israel'', ''IL''),
     (''Italy'', ''IT''),
     (''Japan'', ''JP''),
     (''Kenya'', ''KE''),
     (''Malaysia'', ''MY''),
     (''Mexico'', ''MX''),
     (''Netherlands'', ''NL''),
     (''New Zealand'', ''NZ''),
     (''Nigeria'', ''NG''),
     (''Norway'', ''NO''),
     (''Pakistan'', ''PK''),
     (''Philippines'', ''PH''),
     (''Poland'', ''PL''),
     (''Portugal'', ''PT''),
     (''Romania'', ''RO''),
     (''Russia'', ''RU''),
     (''Saudi Arabia'', ''SA''),
     (''Singapore'', ''SG''),
     (''South Africa'', ''ZA''),
     (''South Korea'', ''KR''),
     (''Spain'', ''ES''),
     (''Sweden'', ''SE''),
     (''Switzerland'', ''CH''),
     (''Taiwan'', ''TW''),
     (''Thailand'', ''TH''),
     (''Turkey'', ''TR''),
     (''Ukraine'', ''UA''),
     (''United Arab Emirates'', ''AE''),
     (''United Kingdom'', ''GB''),
     (''United States'', ''US''),
     (''Venezuela'', ''VE''),
     (''Vietnam'', ''VN'')]"

text \<open>
  \<open>COUNTRY_FLAGS\<close> is an ordinary object literal, so its prototype is \<open>Object.prototype\<close>
  and the property read \<open>COUNTRY_FLAGS[countryName]\<close> of the exact match also finds the
  members inherited from it. These are their names (ECMAScript, with Annex B); each is a function,
  except \<open>__proto__\<close>, whose getter yields the prototype object.
\<close>

definition Object_prototype :: "string list" where
  "Object_prototype =
    [''constructor'', ''hasOwnProperty'', ''isPrototypeOf'', ''propertyIsEnumerable'',
     ''toLocaleString'', ''toString'', ''valueOf'', ''__proto__'',
     ''__defineGetter__'', ''__defineSetter__'', ''__lookupGetter__'', ''__lookupSetter__'']"

datatype jsvalue =
    Undefined
  | Null
  | Glyph string       \<comment> \<open>a string value of the table\<close>
  | Inherited string   \<comment> \<open>the member of \<open>Object.prototype\<close> of that name\<close>

fun truthy :: "jsvalue \<Rightarrow> bool" where
  "truthy Undefined = False"
| "truthy Null = False"
| "truthy (Glyph g) = (g \<noteq> [])"
| "truthy (Inherited m) = True"

definition getProperty :: "(string \<times> string) list \<Rightarrow> string \<Rightarrow> jsvalue" where
  "getProperty obj name =
     (case map_of obj name of
        Some g \<Rightarrow> Glyph g
      | None \<Rightarrow> if name \<in> set Object_prototype then Inherited name else Undefined)"

text \<open>The loop over \<open>Object.entries(COUNTRY_FLAGS)\<close>, with its test on the folded names.\<close>

fun scanEntries :: "(string \<times> string) list \<Rightarrow> string \<Rightarrow> jsvalue" where
  "scanEntries [] normalized = Null"
| "scanEntries ((country, flag) # rest) normalized =
     (if toLowerCase country = toLowerCase normalized then Glyph flag
      else scanEntries rest normalized)"

text \<open>The argument is \<open>None\<close> for \<open>null\<close> or \<open>undefined\<close>.\<close>

fun getCountryFlag :: "string option \<Rightarrow> jsvalue" where
  "getCountryFlag None = Null"
| "getCountryFlag (Some countryName) =
     (if countryName = [] then Null
      else if truthy (getProperty COUNTRY_FLAGS countryName)
           then getProperty COUNTRY_FLAGS countryName
      else scanEntries COUNTRY_FLAGS (trim countryName))"

section \<open>State of the content script (content.js)\<close>

text \<open>
  A location is a string or \<open>null\<close>; \<open>None\<close> stands for \<open>null\<close> (and \<open>undefined\<close>).
  Times are JavaScript numbers holding integers: milliseconds since the epoch for
  \<open>Date.now()\<close>, seconds since the epoch for the rate-limit reset time.
\<close>

record cache_entry =
  location :: "string option"
  expiry :: "int option"     \<comment> \<open>\<open>None\<close>: the stored object has no \<open>expiry\<close> field\<close>
  cachedAt :: "int option"

text \<open>
  The object stored under \<open>CACHE_KEY\<close>, as the list of its properties; the keys of an
  object are distinct. Where the script enumerates the object (line 27), the list is in
  the order of \<open>Object.entries\<close>; the object that \<open>saveCache\<close> builds is listed in the
  order in which its properties are created. The value of a property is \<open>None\<close> when it
  is \<open>null\<close>, on which no field can be read, and otherwise an object whose fields may be
  missing (a number or a string behaves like an object without fields). A stored
  \<open>expiry\<close> is a number, as \<open>saveCache\<close> writes it.
\<close>

type_synonym blob = "(string \<times> cache_entry option) list"

text \<open>
  What \<open>loadCache\<close> can catch at line 34: the rejection of the storage read, and the
  \<open>TypeError\<close> of reading \<open>data.expiry\<close> when \<open>data\<close> is \<open>null\<close>.
\<close>

datatype load_error = StorageError | TypeError

text \<open>
  \<open>requestId = Date.now() + Math.random()\<close> (line 148). The two summands are kept
  apart: the clock reading, and the index of the draw of \<open>Math.random()\<close>. A draw is
  below 1 and the clock readings of two dispatches differ (by at least the request
  interval), so two requests have the same sum exactly when they have the same pair.
\<close>

datatype requestId = RequestId (stamp: int) (draw: nat)

text \<open>
  An entry of \<open>requestQueue\<close>: \<open>{ screenName, resolve, reject }\<close>, where \<open>resolve\<close> and
  \<open>reject\<close> belong to the promise that \<open>getUserLocation\<close> returned; promises are numbered.
\<close>

record queued_request =
  screenName :: string
  promise :: nat

datatype outcome = Resolved "string option" | Rejected

text \<open>The callbacks the script hands to \<open>setTimeout\<close> and \<open>setInterval\<close>.\<close>

datatype callback =
    ProcessRequestQueue                  \<comment> \<open>\<open>setTimeout(processRequestQueue, _)\<close>, lines 104 and 138\<close>
  | ResumeLoop                           \<comment> \<open>\<open>resolve\<close> of the promise awaited at line 120\<close>
  | RequestTimeout string requestId nat  \<comment> \<open>the closure of lines 178-182\<close>
  | PersistCache                         \<comment> \<open>the closure of lines 65-68\<close>
  | IntervalSave                         \<comment> \<open>\<open>setInterval(saveCache, 30000)\<close>, line 423\<close>

record state =
  locationCache :: "(string \<times> string option) list"  \<comment> \<open>a \<open>Map\<close>, in insertion order\<close>
  requestQueue :: "queued_request list"
  isProcessingQueue :: bool
  lastRequestTime :: int
  activeRequests :: int
  rateLimitResetTime :: int
  saveCache_timeout :: bool     \<comment> \<open>\<open>saveCache.timeout\<close> holds a timer id (is truthy)\<close>
  clock :: int                  \<comment> \<open>what \<open>Date.now()\<close> returns\<close>
  timers :: "(int \<times> callback) list"   \<comment> \<open>pending timers: due time and callback\<close>
  handlers :: "(string \<times> requestId \<times> nat) list"
     \<comment> \<open>the \<open>message\<close> listeners added at line 168: screen name, request id, promise\<close>
  settled :: "nat \<Rightarrow> outcome option"  \<comment> \<open>the settled promises of \<open>getUserLocation\<close>\<close>
  nextPromise :: nat
  randomDraws :: nat
  outbox :: "(string \<times> requestId) list"   \<comment> \<open>the \<open>__fetchLocation\<close> messages posted\<close>
  dispatchLog :: "(int \<times> nat) list"
     \<comment> \<open>history: each value assigned to \<open>lastRequestTime\<close> at line 125, with the promise\<close>
  storage :: "blob option"      \<comment> \<open>what \<open>chrome.storage.local\<close> holds under \<open>CACHE_KEY\<close>\<close>
  pendingSets :: "(blob \<times> bool) list"
     \<comment> \<open>calls of \<open>chrome.storage.local.set\<close> not yet settled; the flag marks the debounced save\<close>
  setCalls :: "(blob \<times> bool) list"
     \<comment> \<open>history: every object passed to \<open>chrome.storage.local.set\<close>, with the same flag\<close>

definition CACHE_EXPIRY_DAYS :: int where "CACHE_EXPIRY_DAYS = 30"
definition MIN_REQUEST_INTERVAL :: int where "MIN_REQUEST_INTERVAL = 2000"
definition MAX_CONCURRENT_REQUESTS :: int where "MAX_CONCURRENT_REQUESTS = 2"

text \<open>The module's top-level declarations (lines 2-13), at clock reading \<open>t0\<close>.\<close>

definition initial :: "int \<Rightarrow> blob option \<Rightarrow> state" where
  "initial t0 stored =
     \<lparr> locationCache = [], requestQueue = [], isProcessingQueue = False,
       lastRequestTime = 0, activeRequests = 0, rateLimitResetTime = 0,
       saveCache_timeout = False, clock = t0, timers = [], handlers = [],
       settled = (\<lambda>p. None), nextPromise = 0, randomDraws = 0, outbox = [],
       dispatchLog = [], storage = stored, pendingSets = [], setCalls = [] \<rparr>"

subsection \<open>Persistent cache (lines 19-70)\<close>

text \<open>
  \<open>data.expiry && data.expiry > now\<close> (line 28): a number is truthy unless it is 0.
\<close>

definition admitted :: "int \<Rightarrow> cache_entry \<Rightarrow> bool" where
  "admitted now d = (case expiry d of None \<Rightarrow> False | Some e \<Rightarrow> e \<noteq> 0 \<and> e > now)"

text \<open>
  The loop of lines 27-31; \<open>Map.set\<close> is \<open>AList.update\<close>. Reading \<open>data.expiry\<close> of a
  \<open>null\<close> entry throws: the loop ends there, with the error and with the map as the
  entries before it have left it.
\<close>

fun admitEntries :: "int \<Rightarrow> blob \<Rightarrow> (string \<times> string option) list
    \<Rightarrow> load_error option \<times> (string \<times> string option) list" where
  "admitEntries now [] cache = (None, cache)"
| "admitEntries now ((username, None) # rest) cache = (Some TypeError, cache)"
| "admitEntries now ((username, Some d) # rest) cache =
     admitEntries now rest
       (if admitted now d then AList.update username (location d) cache else cache)"

text \<open>
  \<open>loadCache\<close>, resumed with what \<open>chrome.storage.local.get\<close> settled with: a rejection
  (\<open>Inl\<close>), or the stored object, if any. Both the rejection and an error thrown by the
  loop are caught at line 34 and only logged, and \<open>loadCache\<close> returns: with or without
  an error of the loop, \<open>locationCache\<close> is as the loop has left it.
\<close>

definition storageGet :: "bool \<Rightarrow> state \<Rightarrow> load_error + blob option" where
  "storageGet ok s = (if ok then Inr (storage s) else Inl StorageError)"

definition loadCache :: "load_error + blob option \<Rightarrow> state \<Rightarrow> state" where
  "loadCache result s =
     (case result of
        Inl error \<Rightarrow> s
      | Inr None \<Rightarrow> s
      | Inr (Some cached) \<Rightarrow>
          s\<lparr>locationCache := snd (admitEntries (clock s) cached (locationCache s))\<rparr>)"

text \<open>
  \<open>cacheObj[username] = value\<close> (line 47) on the plain object \<open>cacheObj\<close>. The name
  \<open>__proto__\<close> is an accessor inherited from \<open>Object.prototype\<close>: the assignment calls its
  setter, which makes the value the prototype of \<open>cacheObj\<close> and creates no property, so
  that the object handed to the storage has no entry under this name. Every other name
  becomes an own property, or replaces the one there is.
\<close>

definition setProperty :: "string \<Rightarrow> cache_entry \<Rightarrow> blob \<Rightarrow> blob" where
  "setProperty name v obj =
     (if name = ''__proto__'' then obj else AList.update name (Some v) obj)"

text \<open>The loop of lines 46-52, building \<open>cacheObj\<close>.\<close>

fun buildCacheObj :: "int \<Rightarrow> int \<Rightarrow> (string \<times> string option) list \<Rightarrow> blob \<Rightarrow> blob" where
  "buildCacheObj now expiry' [] cacheObj = cacheObj"
| "buildCacheObj now expiry' ((username, loc) # rest) cacheObj =
     buildCacheObj now expiry' rest
       (setProperty username
          \<lparr>location = loc, expiry = Some expiry', cachedAt = Some now\<rparr> cacheObj)"

text \<open>
  \<open>saveCache\<close> up to its \<open>await\<close> (lines 41-54): the object is built and handed to
  \<open>chrome.storage.local.set\<close>. \<open>debounced\<close> tells whether the caller is the timer
  callback of \<open>saveCacheEntry\<close>, which clears \<open>saveCache.timeout\<close> once the save returns.
\<close>

definition saveCache :: "bool \<Rightarrow> state \<Rightarrow> state" where
  "saveCache debounced s =
     (let now = clock s;
          expiry' = now + (CACHE_EXPIRY_DAYS * 24 * 60 * 60 * 1000);
          cacheObj = buildCacheObj now expiry' (locationCache s) []
      in s\<lparr>pendingSets := pendingSets s @ [(cacheObj, debounced)],
           setCalls := setCalls s @ [(cacheObj, debounced)]\<rparr>)"

text \<open>
  The call of \<open>chrome.storage.local.set\<close> settles: on success the object is stored, a
  rejection is caught and logged (lines 55-57). Either way \<open>saveCache\<close> returns, and the
  debounce callback goes on to line 67.
\<close>

definition storageSetDone :: "bool \<Rightarrow> state \<Rightarrow> state" where
  "storageSetDone ok s =
     (case pendingSets s of
        [] \<Rightarrow> s
      | (cacheObj, debounced) # rest \<Rightarrow>
          s\<lparr>pendingSets := rest,
            storage := (if ok then Some cacheObj else storage s),
            saveCache_timeout := (if debounced then False else saveCache_timeout s)\<rparr>)"

definition saveCacheEntry :: "string \<Rightarrow> string option \<Rightarrow> state \<Rightarrow> state" where
  "saveCacheEntry username loc s =
     (let s1 = s\<lparr>locationCache := AList.update username loc (locationCache s)\<rparr>
      in if \<not> saveCache_timeout s1
         then s1\<lparr>saveCache_timeout := True,
                 timers := timers s1 @ [(clock s1 + 5000, PersistCache)]\<rparr>
         else s1)"

subsection \<open>Request queue and rate limiter (lines 93-199)\<close>

text \<open>
  The promise of \<open>makeLocationRequest\<close> settles, and the reactions of lines 129-139 run:
  the promise of the queued request is settled the same way, \<open>activeRequests\<close> is
  decremented and \<open>processRequestQueue\<close> is scheduled. A promise settles once; a later
  \<open>resolve\<close> has no effect. The reactions are microtasks of the task that settled the
  promise, so the promise of \<open>makeLocationRequest\<close> is settled exactly when promise \<open>p\<close>
  of the queued request is.
\<close>

definition settleRequest :: "nat \<Rightarrow> outcome \<Rightarrow> state \<Rightarrow> state" where
  "settleRequest p out s =
     (if settled s p \<noteq> None then s
      else s\<lparr>settled := (settled s)(p \<mapsto> out),
             activeRequests := activeRequests s - 1,
             timers := timers s @ [(clock s + 200, ProcessRequestQueue)]\<rparr>)"

text \<open>\<open>makeLocationRequest\<close> (lines 146-184), called for the queued request of promise \<open>p\<close>.\<close>

definition makeLocationRequest :: "string \<Rightarrow> nat \<Rightarrow> state \<Rightarrow> state" where
  "makeLocationRequest name p s =
     (let requestId = RequestId (clock s) (randomDraws s)
      in s\<lparr>randomDraws := randomDraws s + 1,
           handlers := handlers s @ [(name, requestId, p)],
           outbox := outbox s @ [(name, requestId)],
           timers := timers s @ [(clock s + 10000, RequestTimeout name requestId p)]\<rparr>)"

text \<open>
  Lines 123-139, for a queue that is not empty (both callers test it; on an empty queue
  nothing is dispatched).
\<close>

definition dispatch :: "state \<Rightarrow> state" where
  "dispatch s =
     (case requestQueue s of
        [] \<Rightarrow> s
      | r # rest \<Rightarrow>
          makeLocationRequest (screenName r) (promise r)
            (s\<lparr>requestQueue := rest,
               activeRequests := activeRequests s + 1,
               lastRequestTime := clock s,
               dispatchLog := dispatchLog s @ [(clock s, promise r)]\<rparr>))"

text \<open>
  The \<open>while\<close> loop of lines 114-140, from its head up to where the function suspends
  (the \<open>await\<close> of line 120, whose timer resumes it) or leaves the loop (line 142).
\<close>

function queueLoop :: "state \<Rightarrow> state" where
  "queueLoop s =
     (if requestQueue s \<noteq> [] \<and> activeRequests s < MAX_CONCURRENT_REQUESTS then
        (let now = clock s;
             timeSinceLastRequest = now - lastRequestTime s
         in if timeSinceLastRequest < MIN_REQUEST_INTERVAL
            then s\<lparr>timers := timers s @
                     [(clock s + (MIN_REQUEST_INTERVAL - timeSinceLastRequest), ResumeLoop)]\<rparr>
            else queueLoop (dispatch s))
      else s\<lparr>isProcessingQueue := False\<rparr>)"
  by pat_completeness auto
termination
  by (relation "measure (\<lambda>s. length (requestQueue s))")
     (auto simp: dispatch_def makeLocationRequest_def Let_def split: list.splits)

text \<open>
  The timer of line 120 resumes the function at line 123. On an empty queue \<open>shift()\<close>
  returns \<open>undefined\<close>, destructuring it throws, and the function ends there, leaving
  \<open>isProcessingQueue\<close> set.
\<close>

definition resumeLoop :: "state \<Rightarrow> state" where
  "resumeLoop s = (if requestQueue s = [] then s else queueLoop (dispatch s))"

definition processRequestQueue :: "state \<Rightarrow> state" where
  "processRequestQueue s =
     (if isProcessingQueue s \<or> requestQueue s = [] then s
      else if rateLimitResetTime s > 0 then
        (let now = clock s div 1000
         in if now < rateLimitResetTime s then
              (let waitTime = (rateLimitResetTime s - now) * 1000
               in s\<lparr>timers := timers s @
                       [(clock s + min waitTime 60000, ProcessRequestQueue)]\<rparr>)
            else queueLoop (s\<lparr>rateLimitResetTime := 0, isProcessingQueue := True\<rparr>))
      else queueLoop (s\<lparr>isProcessingQueue := True\<rparr>))"

text \<open>
  \<open>getUserLocation\<close> returns a promise: one already resolved with the cached value, or
  a new one that the queue settles.
\<close>

datatype lookup = Cached "string option" | Pending nat

definition getUserLocation :: "string \<Rightarrow> state \<Rightarrow> lookup \<times> state" where
  "getUserLocation name s =
     (case map_of (locationCache s) name of
        Some cached \<Rightarrow> (Cached cached, s)
      | None \<Rightarrow>
          (let p = nextPromise s
           in (Pending p,
               processRequestQueue
                 (s\<lparr>nextPromise := p + 1,
                    requestQueue := requestQueue s @ [\<lparr>screenName = name, promise = p\<rparr>]\<rparr>))))"

subsection \<open>Messages and timers\<close>

text \<open>
  The \<open>message\<close> events whose source is the window itself: the answer of the page script
  to a lookup, its rate-limit notice, and anything else.
\<close>

datatype message =
    LocationResponse string "string option" requestId
  | RateLimitInfo int int      \<comment> \<open>\<open>resetTime\<close> (epoch seconds) and \<open>waitTime\<close>\<close>
  | OtherMessage

text \<open>\<open>location || null\<close>: the empty string is falsy.\<close>

definition orNull :: "string option \<Rightarrow> string option" where
  "orNull loc = (if loc = Some [] then None else loc)"

text \<open>The body of a listener of line 151 whose test of lines 155-158 succeeded.\<close>

definition handleResponse :: "string option \<Rightarrow> string \<times> requestId \<times> nat \<Rightarrow> state \<Rightarrow> state" where
  "handleResponse loc h s =
     (case h of (name, requestId, p) \<Rightarrow>
        settleRequest p (Resolved (orNull loc))
          (saveCacheEntry name (orNull loc)
             (s\<lparr>handlers := remove1 h (handlers s)\<rparr>)))"

definition onMessage :: "message \<Rightarrow> state \<Rightarrow> state" where
  "onMessage m s =
     (case m of
        LocationResponse name loc requestId \<Rightarrow>
          fold (handleResponse loc)
            (filter (\<lambda>(name', requestId', p). name' = name \<and> requestId' = requestId)
               (handlers s)) s
      | RateLimitInfo resetTime waitTime \<Rightarrow> s\<lparr>rateLimitResetTime := resetTime\<rparr>
      | OtherMessage \<Rightarrow> s)"

fun runCallback :: "callback \<Rightarrow> state \<Rightarrow> state" where
  "runCallback ProcessRequestQueue s = processRequestQueue s"
| "runCallback ResumeLoop s = resumeLoop s"
| "runCallback (RequestTimeout name requestId p) s =
     settleRequest p (Resolved None)
       (saveCacheEntry name None
          (s\<lparr>handlers := remove1 (name, requestId, p) (handlers s)\<rparr>))"
| "runCallback PersistCache s = saveCache True s"
| "runCallback IntervalSave s =
     saveCache False (s\<lparr>timers := timers s @ [(clock s + 30000, IntervalSave)]\<rparr>)"

text \<open>
  One task of the event loop. Time passes (the clock never runs backwards, and within a
  task every call of \<open>Date.now()\<close> reads the same value); a pending timer runs, not
  before its delay has elapsed, and leaves the list of pending timers; a message arrives;
  some caller asks for a location; a storage write settles. An event that is not possible
  in a state leaves it unchanged. The reactions to a settled promise are microtasks and
  are part of the task that settled it.
\<close>

datatype event =
    Tick int
  | Fire nat
  | Message message
  | GetUserLocation string
  | StorageSetDone bool

fun step :: "event \<Rightarrow> state \<Rightarrow> state" where
  "step (Tick d) s = (if 0 \<le> d then s\<lparr>clock := clock s + d\<rparr> else s)"
| "step (Fire i) s =
     (if i < length (timers s) \<and> fst (timers s ! i) \<le> clock s
      then runCallback (snd (timers s ! i))
             (s\<lparr>timers := take i (timers s) @ drop (Suc i) (timers s)\<rparr>)
      else s)"
| "step (Message m) s = onMessage m s"
| "step (GetUserLocation name) s = snd (getUserLocation name s)"
| "step (StorageSetDone ok) s = storageSetDone ok s"

definition run :: "event list \<Rightarrow> state \<Rightarrow> state" where
  "run es s = fold step es s"

text \<open>
  \<open>init\<close> (lines 394-424), as far as the cache and the queue go: the cache is loaded
  and the periodic save is set up.
\<close>

definition init :: "bool \<Rightarrow> state \<Rightarrow> state" where
  "init readOk s =
     (let s1 = loadCache (storageGet readOk s) s
      in s1\<lparr>timers := timers s1 @ [(clock s1 + 30000, IntervalSave)]\<rparr>)"

subsection \<open>Scanning the page (lines 202-262 and 346-364)\<close>

text \<open>
  A container is seen through the queries the script makes on it: its
  \<open>dataset.flagAdded\<close> (\<open>None\<close> when the attribute is absent), the links
  \<open>a[href^="/"]\<close> below its first \<open>[data-testid="UserName"]\<close> descendant (\<open>None\<close> when
  there is no such descendant), and the links \<open>a[href^="/"]\<close> below the container itself,
  both in document order.
\<close>

record anchor =
  href :: string
  textContent :: string

record container =
  flagAdded :: "string option"
  userNameLinks :: "anchor list option"
  links :: "anchor list"

text \<open>\<open>href.match(/^\/([^\/\?]+)/)\<close>: the first group, when the expression matches.\<close>

definition matchSegment :: "string \<Rightarrow> string option" where
  "matchSegment h =
     (case h of
        [] \<Rightarrow> None
      | c # rest \<Rightarrow>
          if c = CHR ''/'' then
            (let seg = takeWhile (\<lambda>x. x \<noteq> CHR ''/'' \<and> x \<noteq> CHR ''?'') rest
             in if seg = [] then None else Some seg)
          else None)"

text \<open>The tests of lines 210-218 on \<open>match[1]\<close>.\<close>

definition isProfileSegment :: "string \<Rightarrow> bool" where
  "isProfileSegment seg =
     (seg \<noteq> [] \<and>
      seg \<noteq> ''home'' \<and>
      seg \<noteq> ''explore'' \<and>
      seg \<noteq> ''notifications'' \<and>
      seg \<noteq> ''messages'' \<and>
      seg \<noteq> ''i'' \<and>
      seg \<noteq> ''compose'' \<and>
      seg \<noteq> ''search'' \<and>
      \<not> startsWith seg ''hashtag'')"

text \<open>The loop of lines 207-221.\<close>

fun firstProfileLink :: "anchor list \<Rightarrow> string option" where
  "firstProfileLink [] = None"
| "firstProfileLink (link # rest) =
     (case matchSegment (href link) of
        Some seg \<Rightarrow> if isProfileSegment seg then Some seg else firstProfileLink rest
      | None \<Rightarrow> firstProfileLink rest)"

text \<open>The loop of lines 226-249.\<close>

fun firstNamedLink :: "anchor list \<Rightarrow> string option" where
  "firstNamedLink [] = None"
| "firstNamedLink (link # rest) =
     (case matchSegment (href link) of
        Some seg \<Rightarrow>
          if isProfileSegment seg \<and> \<not> includesStr seg ''status'' then
            (let text = trim (textContent link)
             in if text \<noteq> [] \<and> startsWith text ''@'' then Some seg
                else if text \<noteq> [] \<and> toLowerCase text = toLowerCase seg then Some seg
                else firstNamedLink rest)
          else firstNamedLink rest
      | None \<Rightarrow> firstNamedLink rest)"

definition extractUsername :: "container \<Rightarrow> string option" where
  "extractUsername element =
     (case (case userNameLinks element of
              Some ls \<Rightarrow> firstProfileLink ls
            | None \<Rightarrow> None) of
        Some seg \<Rightarrow> Some seg
      | None \<Rightarrow> firstNamedLink (links element))"

text \<open>
  \<open>addFlagToUsername\<close> up to its first \<open>await\<close> (lines 255-265). The call either returns
  at line 258, or marks the element, asks for the location and suspends on the promise
  of \<open>getUserLocation\<close>; what it does when resumed (lines 266-342) is not part of this
  development.
\<close>

datatype annotation = Returned | Awaiting lookup

definition addFlagToUsername :: "container \<Rightarrow> string \<Rightarrow> state
    \<Rightarrow> annotation \<times> container \<times> state" where
  "addFlagToUsername usernameElement name s =
     (if flagAdded usernameElement = Some ''true'' then (Returned, usernameElement, s)
      else
        (let marked = usernameElement\<lparr>flagAdded := Some ''processing''\<rparr>;
             (promised, s') = getUserLocation name s
         in (Awaiting promised, marked, s')))"

text \<open>
  The body of the loop of \<open>processUsernames\<close> (lines 353-362); \<open>!status\<close> holds for an
  absent attribute and for the empty string.
\<close>

definition scanContainer :: "container \<Rightarrow> state \<Rightarrow> container \<times> state" where
  "scanContainer c s =
     (case extractUsername c of
        None \<Rightarrow> (c, s)
      | Some name \<Rightarrow>
          if name \<noteq> [] then
            (let status = flagAdded c
             in if status = None \<or> status = Some [] \<or> status = Some ''failed''
                then (case addFlagToUsername c name s of (a, c', s') \<Rightarrow> (c', s'))
                else (c, s))
          else (c, s))"

fun processUsernames :: "container list \<Rightarrow> state \<Rightarrow> container list \<times> state" where
  "processUsernames [] s = ([], s)"
| "processUsernames (c # containers) s =
     (case scanContainer c s of
        (c', s') \<Rightarrow>
          (case processUsernames containers s' of
             (containers', s'') \<Rightarrow> (c' # containers', s'')))"

section \<open>Notions used by the properties\<close>

text \<open>Successive entries of a chronological list of times lie at least 2000 ms apart.\<close>

fun spaced :: "int list \<Rightarrow> bool" where
  "spaced (t1 # t2 # ts) = (t2 - t1 \<ge> MIN_REQUEST_INTERVAL \<and> spaced (t2 # ts))"
| "spaced ts = True"

text \<open>The promises of the requests that were dispatched and are not settled yet.\<close>

definition inFlight :: "state \<Rightarrow> nat list" where
  "inFlight s = filter (\<lambda>p. settled s p = None) (map snd (dispatchLog s))"

text \<open>The due times of the pending timers with a given callback.\<close>

definition dues :: "callback \<Rightarrow> state \<Rightarrow> int list" where
  "dues cb s = map fst (filter (\<lambda>t. snd t = cb) (timers s))"

text \<open>
  What happens to the cache over time: a call of \<open>saveCacheEntry\<close> by some caller, or an
  event of the script. \<open>perform\<close> runs a list of them.
\<close>

datatype action = Put string "string option" | Happens event

fun act :: "action \<Rightarrow> state \<Rightarrow> state" where
  "act (Put username loc) s = saveCacheEntry username loc s"
| "act (Happens e) s = step e s"

definition perform :: "action list \<Rightarrow> state \<Rightarrow> state" where
  "perform as s = fold act as s"


text \<open>What \<open>saveCache\<close> writes for an entry of the map at clock reading \<open>now\<close>.\<close>

definition stamped :: "int \<Rightarrow> string \<times> string option \<Rightarrow> string \<times> cache_entry option" where
  "stamped now e =
     (fst e, Some \<lparr>location = snd e,
                  expiry = Some (now + CACHE_EXPIRY_DAYS * 24 * 60 * 60 * 1000),
                  cachedAt = Some now\<rparr>)"

text \<open>The entries of a stored object that come before its first \<open>null\<close> entry.\<close>

fun readable :: "blob \<Rightarrow> (string \<times> cache_entry) list" where
  "readable [] = []"
| "readable ((username, None) # rest) = []"
| "readable ((username, Some d) # rest) = (username, d) # readable rest"


subsection \<open>Invariants of the request queue\<close>

text \<open>
  While \<open>processRequestQueue\<close> is suspended at line 120, \<open>isProcessingQueue\<close> is set,
  exactly one timer waits to resume the loop, that timer is due one interval after the
  last dispatch, and the loop condition of line 114 holds. Otherwise no such timer
  exists.
\<close>

definition loopInv :: "state \<Rightarrow> bool" where
  "loopInv s =
     (activeRequests s \<le> MAX_CONCURRENT_REQUESTS \<and>
      (if isProcessingQueue s
       then dues ResumeLoop s = [lastRequestTime s + MIN_REQUEST_INTERVAL] \<and>
            activeRequests s < MAX_CONCURRENT_REQUESTS \<and> requestQueue s \<noteq> []
       else dues ResumeLoop s = []))"

text \<open>The dispatch times are spaced, and \<open>lastRequestTime\<close> is the latest of them.\<close>

definition logInv :: "state \<Rightarrow> bool" where
  "logInv s =
     (spaced (map fst (dispatchLog s)) \<and>
      (dispatchLog s = [] \<or> last (map fst (dispatchLog s)) = lastRequestTime s))"

text \<open>The loop is executing: the flag is set and no timer waits to resume it.\<close>

definition running :: "state \<Rightarrow> bool" where
  "running s =
     (isProcessingQueue s \<and> dues ResumeLoop s = [] \<and>
      activeRequests s \<le> MAX_CONCURRENT_REQUESTS \<and> logInv s)"

definition qInv :: "state \<Rightarrow> bool" where
  "qInv s = (loopInv s \<and> logInv s)"

text \<open>
  The requests dispatched so far: the message posted for each, with the promise of the
  queued request it serves.
\<close>

definition flights :: "state \<Rightarrow> ((string \<times> requestId) \<times> nat) list" where
  "flights s = zip (outbox s) (map snd (dispatchLog s))"

text \<open>Promises are numbered apart: no number is queued or dispatched twice.\<close>

definition idInv :: "state \<Rightarrow> bool" where
  "idInv s =
     (length (outbox s) = length (dispatchLog s) \<and>
      distinct (map promise (requestQueue s) @ map snd (dispatchLog s)) \<and>
      (\<forall>p \<in> set (map promise (requestQueue s) @ map snd (dispatchLog s)). p < nextPromise s))"

text \<open>
  Only dispatched requests are settled, none is rejected, and \<open>activeRequests\<close> counts
  the dispatched requests that are not settled.
\<close>

definition setInv :: "state \<Rightarrow> bool" where
  "setInv s =
     ((\<forall>p. settled s p \<noteq> None \<longrightarrow> p \<in> set (map snd (dispatchLog s))) \<and>
      (\<forall>p. settled s p \<noteq> Some Rejected) \<and>
      activeRequests s = int (length (inFlight s)))"

text \<open>Every registered listener belongs to a dispatched request that is not settled.\<close>

definition hInv :: "state \<Rightarrow> bool" where
  "hInv s =
     (distinct (handlers s) \<and>
      (\<forall>n rid p. (n, rid, p) \<in> set (handlers s) \<longrightarrow>
          ((n, rid), p) \<in> set (flights s) \<and> settled s p = None))"

text \<open>Every pending timeout belongs to a dispatched request and is due 10 s after it.\<close>

definition tInv :: "state \<Rightarrow> bool" where
  "tInv s =
     (\<forall>due n rid p. (due, RequestTimeout n rid p) \<in> set (timers s) \<longrightarrow>
        ((n, rid), p) \<in> set (flights s) \<and> due = stamp rid + 10000)"

definition pInv :: "state \<Rightarrow> bool" where
  "pInv s = (idInv s \<and> setInv s \<and> hInv s \<and> tInv s)"

fun isTimeout :: "callback \<Rightarrow> bool" where
  "isTimeout (RequestTimeout n rid p) = True"
| "isTimeout cb = False"

text \<open>
  Two states agree on the cache side: the map, the debounce flag, the storage calls, the
  pending persist timers and the clock.
\<close>

definition sameCacheSide :: "state \<Rightarrow> state \<Rightarrow> bool" where
  "sameCacheSide s s' =
     (locationCache s' = locationCache s \<and> saveCache_timeout s' = saveCache_timeout s \<and>
      pendingSets s' = pendingSets s \<and> setCalls s' = setCalls s \<and>
      storage s' = storage s \<and> dues PersistCache s' = dues PersistCache s \<and>
      clock s' = clock s)"

text \<open>
  \<open>saveCache.timeout\<close> is set exactly while one debounced persist is scheduled or its
  write is under way; there is never a second one.
\<close>

definition persistInv :: "state \<Rightarrow> bool" where
  "persistInv s =
     (length (dues PersistCache s) + length (filter snd (pendingSets s)) =
        (if saveCache_timeout s then 1 else 0))"


text \<open>The in-memory cache is a \<open>Map\<close>: no key occurs twice.\<close>

definition cInv :: "state \<Rightarrow> bool" where
  "cInv s = distinct (map fst (locationCache s))"

text \<open>
  A user cell whose name block links to \<open>/alice\<close> with the text \<open>@alice\<close>, carrying a
  given processing tag.
\<close>

definition alice_cell :: "string option \<Rightarrow> container" where
  "alice_cell tag =
     \<lparr>flagAdded = tag,
      userNameLinks = Some [\<lparr>href = ''/alice'', textContent = ''@alice''\<rparr>],
      links = [\<lparr>href = ''/alice'', textContent = ''@alice''\<rparr>]\<rparr>"

declare queueLoop.simps [simp del]

section \<open>The request queue keeps its invariants\<close>

subsection \<open>Concurrency bound and spacing\<close>

lemma spaced_snoc:
  "spaced (ts @ [t]) \<longleftrightarrow> spaced ts \<and> (ts = [] \<or> t - last ts \<ge> MIN_REQUEST_INTERVAL)"
  by (induction ts rule: spaced.induct) auto

lemma running_dispatch:
  assumes "running s" "requestQueue s \<noteq> []" "activeRequests s < MAX_CONCURRENT_REQUESTS"
    "clock s - lastRequestTime s \<ge> MIN_REQUEST_INTERVAL"
  shows "running (dispatch s)"
  using assms
  by (auto simp: running_def logInv_def dispatch_def makeLocationRequest_def dues_def Let_def
      MAX_CONCURRENT_REQUESTS_def spaced_snoc split: list.splits)

lemma queueLoop_inv: "running s \<Longrightarrow> loopInv (queueLoop s) \<and> logInv (queueLoop s)"
proof (induction s rule: queueLoop.induct)
  case (1 s)
  show ?case
  proof (cases "requestQueue s \<noteq> [] \<and> activeRequests s < MAX_CONCURRENT_REQUESTS")
    case False
    with "1.prems" show ?thesis
      by (subst queueLoop.simps, subst (2) queueLoop.simps)
         (auto simp: running_def loopInv_def logInv_def dues_def)
  next
    case go: True
    show ?thesis
    proof (cases "clock s - lastRequestTime s < MIN_REQUEST_INTERVAL")
      case True
      with go "1.prems" show ?thesis
        by (subst queueLoop.simps, subst (2) queueLoop.simps)
           (auto simp: running_def loopInv_def logInv_def dues_def Let_def MAX_CONCURRENT_REQUESTS_def MIN_REQUEST_INTERVAL_def)
    next
      case False
      with go "1.prems" have "running (dispatch s)"
        by (intro running_dispatch) auto
      with "1.IH" [OF go refl refl False] have "loopInv (queueLoop (dispatch s)) \<and> logInv (queueLoop (dispatch s))"
        by simp
      with go False show ?thesis
        by (subst queueLoop.simps, subst (2) queueLoop.simps) (simp add: Let_def)
    qed
  qed
qed


lemma qInv_frame:
  assumes "qInv s"
    and "activeRequests s' = activeRequests s" "isProcessingQueue s' = isProcessingQueue s"
    and "requestQueue s' = requestQueue s" "lastRequestTime s' = lastRequestTime s"
    and "dues ResumeLoop s' = dues ResumeLoop s" "dispatchLog s' = dispatchLog s"
  shows "qInv s'"
  using assms by (simp add: qInv_def loopInv_def logInv_def)

lemma qInv_saveCacheEntry: "qInv s \<Longrightarrow> qInv (saveCacheEntry u l s)"
  by (erule qInv_frame) (simp_all add: saveCacheEntry_def Let_def dues_def)

lemma qInv_saveCache: "qInv s \<Longrightarrow> qInv (saveCache b s)"
  by (erule qInv_frame) (simp_all add: saveCache_def Let_def dues_def)

lemma qInv_storageSetDone: "qInv s \<Longrightarrow> qInv (storageSetDone ok s)"
  by (erule qInv_frame) (simp_all add: storageSetDone_def dues_def split: list.splits prod.splits)

lemma qInv_handlers: "qInv s \<Longrightarrow> qInv (s\<lparr>handlers := hs\<rparr>)"
  by (erule qInv_frame) (simp_all add: dues_def)

lemma qInv_settleRequest: "qInv s \<Longrightarrow> qInv (settleRequest p out s)"
  by (auto simp: qInv_def loopInv_def logInv_def settleRequest_def dues_def
      MAX_CONCURRENT_REQUESTS_def)

lemma qInv_processRequestQueue: "qInv s \<Longrightarrow> qInv (processRequestQueue s)"
proof -
  assume inv: "qInv s"
  have r1: "running (s\<lparr>isProcessingQueue := True\<rparr>)"
    and r2: "running (s\<lparr>rateLimitResetTime := 0, isProcessingQueue := True\<rparr>)"
    if "\<not> isProcessingQueue s"
    using inv that
    by (simp_all add: qInv_def running_def loopInv_def logInv_def dues_def)
  have enter: "qInv (queueLoop (s\<lparr>isProcessingQueue := True\<rparr>))"
    and enter': "qInv (queueLoop (s\<lparr>rateLimitResetTime := 0, isProcessingQueue := True\<rparr>))"
    if "\<not> isProcessingQueue s"
    using queueLoop_inv [OF r1 [OF that]] queueLoop_inv [OF r2 [OF that]]
    by (simp_all add: qInv_def)
  have later: "qInv (s\<lparr>timers := timers s @ [(d, ProcessRequestQueue)]\<rparr>)" for d
    using inv by (rule qInv_frame) (simp_all add: dues_def)
  show ?thesis
    using inv enter enter' later by (simp add: processRequestQueue_def Let_def)
qed

lemma qInv_getUserLocation: "qInv s \<Longrightarrow> qInv (snd (getUserLocation name s))"
proof -
  assume inv: "qInv s"
  have "qInv (s\<lparr>nextPromise := n, requestQueue := requestQueue s @ [r]\<rparr>)" for n r
    using inv by (auto simp: qInv_def loopInv_def logInv_def dues_def)
  then show ?thesis
    using inv by (simp add: getUserLocation_def Let_def qInv_processRequestQueue split: option.splits)
qed

lemma qInv_handleResponse: "qInv s \<Longrightarrow> qInv (handleResponse loc h s)"
  by (simp add: handleResponse_def qInv_settleRequest qInv_saveCacheEntry qInv_handlers
      split: prod.splits)

lemma qInv_fold_handleResponse: "qInv s \<Longrightarrow> qInv (fold (handleResponse loc) hs s)"
  by (induction hs arbitrary: s) (simp_all add: qInv_handleResponse)

lemma qInv_onMessage: "qInv s \<Longrightarrow> qInv (onMessage m s)"
proof (cases m)
  case (LocationResponse name loc rid)
  assume "qInv s"
  then show ?thesis
    by (simp add: LocationResponse onMessage_def qInv_fold_handleResponse)
next
  case (RateLimitInfo r w)
  assume "qInv s"
  then have "qInv (s\<lparr>rateLimitResetTime := r\<rparr>)"
    by (rule qInv_frame) (simp_all add: dues_def)
  then show ?thesis by (simp add: RateLimitInfo onMessage_def)
next
  case OtherMessage
  assume "qInv s"
  then show ?thesis by (simp add: OtherMessage onMessage_def)
qed

lemma dues_remove:
  assumes "i < length (timers s)"
  shows "dues cb s =
     dues cb (s\<lparr>timers := take i (timers s)\<rparr>) @
     (if snd (timers s ! i) = cb then [fst (timers s ! i)] else []) @
     dues cb (s\<lparr>timers := drop (Suc i) (timers s)\<rparr>)"
proof -
  have "timers s = take i (timers s) @ timers s ! i # drop (Suc i) (timers s)"
    using assms by (rule id_take_nth_drop)
  then have "filter (\<lambda>t. snd t = cb) (timers s) =
      filter (\<lambda>t. snd t = cb) (take i (timers s) @ timers s ! i # drop (Suc i) (timers s))"
    by simp
  then show ?thesis by (simp add: dues_def)
qed

lemma dues_removed:
  "dues cb (s\<lparr>timers := take i (timers s) @ drop (Suc i) (timers s)\<rparr>) =
     dues cb (s\<lparr>timers := take i (timers s)\<rparr>) @ dues cb (s\<lparr>timers := drop (Suc i) (timers s)\<rparr>)"
  by (simp add: dues_def)

lemma qInv_fire:
  assumes inv: "qInv s" and i: "i < length (timers s)" and due: "fst (timers s ! i) \<le> clock s"
  shows "qInv (runCallback (snd (timers s ! i))
            (s\<lparr>timers := take i (timers s) @ drop (Suc i) (timers s)\<rparr>))"
proof -
  let ?s = "s\<lparr>timers := take i (timers s) @ drop (Suc i) (timers s)\<rparr>"
  show ?thesis
  proof (cases "snd (timers s ! i) = ResumeLoop")
    case True
    from dues_remove [OF i, of ResumeLoop] True
    have split: "dues ResumeLoop s = dues ResumeLoop (s\<lparr>timers := take i (timers s)\<rparr>) @
        [fst (timers s ! i)] @ dues ResumeLoop (s\<lparr>timers := drop (Suc i) (timers s)\<rparr>)"
      by simp
    then have nonempty: "dues ResumeLoop s \<noteq> []" by simp
    with inv have flag: "isProcessingQueue s"
      and one: "dues ResumeLoop s = [lastRequestTime s + MIN_REQUEST_INTERVAL]"
      and act: "activeRequests s < MAX_CONCURRENT_REQUESTS" and q: "requestQueue s \<noteq> []"
      by (auto simp: qInv_def loopInv_def split: if_splits)
    from split one have none: "dues ResumeLoop ?s = []"
      and t: "fst (timers s ! i) = lastRequestTime s + MIN_REQUEST_INTERVAL"
      by (auto simp: dues_removed append_eq_Cons_conv Cons_eq_append_conv)
    have "running ?s"
      using inv flag none act by (simp add: running_def qInv_def logInv_def)
    moreover have "clock ?s - lastRequestTime ?s \<ge> MIN_REQUEST_INTERVAL"
      using t due by simp
    ultimately have "running (dispatch ?s)"
      using q act by (intro running_dispatch) simp_all
    then have "qInv (queueLoop (dispatch ?s))"
      using queueLoop_inv by (simp add: qInv_def)
    with True q show ?thesis by (simp add: resumeLoop_def)
  next
    case False
    with dues_remove [OF i, of ResumeLoop]
    have "dues ResumeLoop ?s = dues ResumeLoop s" by (simp add: dues_removed)
    with inv have inv': "qInv ?s"
      by (intro qInv_frame [OF inv]) simp_all
    have inv'': "qInv (?s\<lparr>timers := timers ?s @ [(d, IntervalSave)]\<rparr>)" for d
      by (rule qInv_frame [OF inv']) (simp_all add: dues_def)
    from False inv' inv'' show ?thesis
      by (cases "snd (timers s ! i)")
         (simp_all add: qInv_processRequestQueue qInv_settleRequest qInv_saveCacheEntry
            qInv_handlers qInv_saveCache del: state.simps)
  qed
qed

lemma qInv_step: "qInv s \<Longrightarrow> qInv (step e s)"
proof (cases e)
  case (Tick d)
  assume inv: "qInv s"
  have "qInv (s\<lparr>clock := clock s + d\<rparr>)"
    by (rule qInv_frame [OF inv]) (simp_all add: dues_def)
  with inv show ?thesis by (simp add: Tick)
next
  case (Fire i)
  assume "qInv s"
  then show ?thesis by (simp add: Fire qInv_fire)
next
  case (Message m)
  assume "qInv s"
  then show ?thesis by (simp add: Message qInv_onMessage)
next
  case (GetUserLocation name)
  assume "qInv s"
  then show ?thesis by (simp add: GetUserLocation qInv_getUserLocation)
next
  case (StorageSetDone ok)
  assume "qInv s"
  then show ?thesis by (simp add: StorageSetDone qInv_storageSetDone)
qed

lemma qInv_run: "qInv s \<Longrightarrow> qInv (run es s)"
  unfolding run_def by (induction es arbitrary: s) (simp_all add: qInv_step)

lemma qInv_init: "qInv (init readOk (initial t0 stored))"
  by (simp add: qInv_def loopInv_def logInv_def init_def loadCache_def storageGet_def
      initial_def dues_def Let_def MAX_CONCURRENT_REQUESTS_def split: option.splits)


subsection \<open>Accounting of dispatched requests\<close>

lemma pInv_frame:
  assumes "pInv s"
    and "outbox s' = outbox s" "dispatchLog s' = dispatchLog s" "requestQueue s' = requestQueue s"
    and "nextPromise s' = nextPromise s" "settled s' = settled s" "handlers s' = handlers s"
    and "activeRequests s' = activeRequests s"
    and "\<And>t. t \<in> set (timers s') \<Longrightarrow> t \<in> set (timers s) \<or> \<not> isTimeout (snd t)"
  shows "pInv s'"
proof -
  have fl: "flights s' = flights s"
    using assms(2,3) by (simp add: flights_def)
  have "tInv s'"
    unfolding tInv_def
  proof (intro allI impI)
    fix due n rid p
    assume "(due, RequestTimeout n rid p) \<in> set (timers s')"
    from assms(9) [OF this] have "(due, RequestTimeout n rid p) \<in> set (timers s)" by simp
    with assms(1) show "((n, rid), p) \<in> set (flights s') \<and> due = stamp rid + 10000"
      by (auto simp: pInv_def tInv_def fl)
  qed
  moreover have "idInv s'" "setInv s'" "hInv s'"
    using assms(1-8) fl by (simp_all add: pInv_def idInv_def setInv_def hInv_def inFlight_def)
  ultimately show ?thesis by (simp add: pInv_def)
qed

lemma pInv_saveCacheEntry: "pInv s \<Longrightarrow> pInv (saveCacheEntry u l s)"
  by (erule pInv_frame) (auto simp: saveCacheEntry_def Let_def split: if_splits)

lemma pInv_saveCache: "pInv s \<Longrightarrow> pInv (saveCache b s)"
  by (erule pInv_frame) (simp_all add: saveCache_def Let_def)

lemma pInv_storageSetDone: "pInv s \<Longrightarrow> pInv (storageSetDone ok s)"
  by (erule pInv_frame) (simp_all add: storageSetDone_def split: list.splits prod.splits)

lemma inflight_settle:
  "distinct ds \<Longrightarrow> p \<in> set ds \<Longrightarrow> f p = None \<Longrightarrow>
   length (filter (\<lambda>q. (f(p \<mapsto> out)) q = None) ds) + 1 = length (filter (\<lambda>q. f q = None) ds)"
proof (induction ds)
  case Nil
  then show ?case by simp
next
  case (Cons d ds)
  show ?case
  proof (cases "d = p")
    case True
    with Cons.prems have "p \<notin> set ds" by simp
    then have "filter (\<lambda>q. (f(p \<mapsto> out)) q = None) ds = filter (\<lambda>q. f q = None) ds"
      by (intro filter_cong) auto
    with True Cons.prems show ?thesis by simp
  next
    case False
    with Cons show ?thesis by auto
  qed
qed

text \<open>Settling a dispatched promise that no listener waits for.\<close>

lemma pInv_settleRequest:
  assumes inv: "pInv s" and p: "p \<in> set (map snd (dispatchLog s))"
    and nh: "\<forall>h \<in> set (handlers s). snd (snd h) \<noteq> p" and out: "out \<noteq> Rejected"
  shows "pInv (settleRequest p out s)"
proof (cases "settled s p = None")
  case False
  then show ?thesis using inv by (simp add: settleRequest_def)
next
  case True
  let ?s = "s\<lparr>settled := (settled s)(p \<mapsto> out),
             activeRequests := activeRequests s - 1,
             timers := timers s @ [(clock s + 200, ProcessRequestQueue)]\<rparr>"
  from inv have d: "distinct (map snd (dispatchLog s))"
    by (simp add: pInv_def idInv_def)
  from inflight_settle [of "map snd (dispatchLog s)" p "settled s" out] d p True inv
  have act: "activeRequests ?s = int (length (inFlight ?s))"
    by (simp add: pInv_def setInv_def inFlight_def)
  have "idInv ?s" using inv by (simp add: pInv_def idInv_def)
  moreover have "setInv ?s"
    using inv p out act by (auto simp: pInv_def setInv_def)
  moreover have "hInv ?s"
    using inv nh by (fastforce simp: pInv_def hInv_def flights_def)
  moreover have "tInv ?s"
    using inv by (auto simp: pInv_def tInv_def flights_def)
  ultimately show ?thesis using True by (simp add: settleRequest_def pInv_def)
qed


lemma flights_snoc:
  "length (outbox s) = length (dispatchLog s) \<Longrightarrow>
   zip (outbox s @ [x]) (map snd (dispatchLog s) @ [p]) = flights s @ [(x, p)]"
  by (simp add: flights_def)

lemma dispatch_fields:
  assumes "requestQueue s = r # rest"
  shows "requestQueue (dispatch s) = rest"
    and "activeRequests (dispatch s) = activeRequests s + 1"
    and "dispatchLog (dispatch s) = dispatchLog s @ [(clock s, promise r)]"
    and "handlers (dispatch s) =
           handlers s @ [(screenName r, RequestId (clock s) (randomDraws s), promise r)]"
    and "outbox (dispatch s) = outbox s @ [(screenName r, RequestId (clock s) (randomDraws s))]"
    and "timers (dispatch s) = timers s @
           [(clock s + 10000,
             RequestTimeout (screenName r) (RequestId (clock s) (randomDraws s)) (promise r))]"
    and "settled (dispatch s) = settled s"
    and "nextPromise (dispatch s) = nextPromise s"
  using assms by (simp_all add: dispatch_def makeLocationRequest_def Let_def)

lemma pInv_dispatch:
  assumes inv: "pInv s"
  shows "pInv (dispatch s)"
proof (cases "requestQueue s")
  case Nil
  then show ?thesis using inv by (simp add: dispatch_def)
next
  case (Cons r rest)
  note f = dispatch_fields [OF Cons]
  let ?p = "promise r"
  let ?x = "(screenName r, RequestId (clock s) (randomDraws s))"
  from inv Cons have len: "length (outbox s) = length (dispatchLog s)"
    and fresh: "?p \<notin> set (map snd (dispatchLog s))"
    and dist: "distinct (map promise rest @ map snd (dispatchLog s))" "?p \<notin> set (map promise rest)"
    and bound: "\<forall>q \<in> set (map promise rest @ map snd (dispatchLog s)). q < nextPromise s"
      "?p < nextPromise s"
    by (auto simp: pInv_def idInv_def)
  from inv fresh have unset: "settled s ?p = None"
    by (auto simp: pInv_def setInv_def)
  have fl: "flights (dispatch s) = flights s @ [(?x, ?p)]"
    using flights_snoc [OF len, of ?x ?p] by (simp add: flights_def f)
  have inflight: "inFlight (dispatch s) = inFlight s @ [?p]"
    using unset by (simp add: inFlight_def f)
  have nofl: "(x, ?p) \<notin> set (flights s)" for x
    using fresh by (auto simp: flights_def dest: set_zip_rightD)
  have "idInv (dispatch s)"
    unfolding idInv_def f using len fresh dist bound by auto
  moreover have "setInv (dispatch s)"
    using inv inflight unfolding pInv_def setInv_def f by auto
  moreover have "hInv (dispatch s)"
  proof -
    have "(screenName r, RequestId (clock s) (randomDraws s), ?p) \<notin> set (handlers s)"
      using inv nofl unfolding pInv_def hInv_def by blast
    then have "distinct (handlers (dispatch s))"
      using inv unfolding pInv_def hInv_def f by simp
    moreover have "((n, rid), p) \<in> set (flights (dispatch s)) \<and> settled (dispatch s) p = None"
      if "(n, rid, p) \<in> set (handlers (dispatch s))" for n rid p
      using that inv unset unfolding pInv_def hInv_def f fl by auto
    ultimately show ?thesis unfolding hInv_def by blast
  qed
  moreover have "tInv (dispatch s)"
    using inv unfolding pInv_def tInv_def f fl by auto
  ultimately show ?thesis by (simp add: pInv_def)
qed

lemma pInv_queueLoop: "pInv s \<Longrightarrow> pInv (queueLoop s)"
proof (induction s rule: queueLoop.induct)
  case (1 s)
  have suspend: "pInv (s\<lparr>timers := timers s @ [(d, ResumeLoop)]\<rparr>)" for d
    by (rule pInv_frame [OF "1.prems"]) auto
  have leave: "pInv (s\<lparr>isProcessingQueue := False\<rparr>)"
    by (rule pInv_frame [OF "1.prems"]) auto
  show ?case
  proof (cases "requestQueue s \<noteq> [] \<and> activeRequests s < MAX_CONCURRENT_REQUESTS \<and>
      \<not> clock s - lastRequestTime s < MIN_REQUEST_INTERVAL")
    case True
    with "1.IH" [OF _ refl refl] pInv_dispatch [OF "1.prems"]
    have "pInv (queueLoop (dispatch s))" by simp
    with True show ?thesis
      by (subst queueLoop.simps) (simp add: Let_def)
  next
    case False
    with suspend leave show ?thesis
      by (subst queueLoop.simps) (auto simp: Let_def)
  qed
qed

lemma pInv_processRequestQueue: "pInv s \<Longrightarrow> pInv (processRequestQueue s)"
proof -
  assume inv: "pInv s"
  have "pInv (s\<lparr>isProcessingQueue := True\<rparr>)"
    and "pInv (s\<lparr>rateLimitResetTime := 0, isProcessingQueue := True\<rparr>)"
    and "pInv (s\<lparr>timers := timers s @ [(d, ProcessRequestQueue)]\<rparr>)" for d
    by (rule pInv_frame [OF inv]; auto)+
  with inv show ?thesis
    by (simp add: processRequestQueue_def Let_def pInv_queueLoop)
qed


lemma pInv_getUserLocation: "pInv s \<Longrightarrow> pInv (snd (getUserLocation name s))"
proof -
  assume inv: "pInv s"
  let ?s = "s\<lparr>nextPromise := nextPromise s + 1,
       requestQueue := requestQueue s @ [\<lparr>screenName = name, promise = nextPromise s\<rparr>]\<rparr>"
  from inv have b: "\<forall>q \<in> set (map promise (requestQueue s) @ map snd (dispatchLog s)). q < nextPromise s"
    and d: "distinct (map promise (requestQueue s) @ map snd (dispatchLog s))"
    and l: "length (outbox s) = length (dispatchLog s)"
    by (simp_all add: pInv_def idInv_def)
  from b have "nextPromise s \<notin> set (map promise (requestQueue s) @ map snd (dispatchLog s))"
    by blast
  with d have "distinct (map promise (requestQueue ?s) @ map snd (dispatchLog ?s))"
    by auto
  moreover from b have "\<forall>q \<in> set (map promise (requestQueue ?s) @ map snd (dispatchLog ?s)). q < nextPromise ?s"
    by (fastforce intro: less_SucI)
  ultimately have "idInv ?s"
    using l unfolding idInv_def by simp
  moreover have "setInv ?s" "hInv ?s" "tInv ?s"
    using inv by (simp_all add: pInv_def setInv_def hInv_def tInv_def flights_def inFlight_def)
  ultimately have "pInv ?s" by (simp add: pInv_def)
  then show ?thesis
    using inv by (simp add: getUserLocation_def Let_def pInv_processRequestQueue split: option.splits)
qed


lemma handler_unique:
  assumes inv: "pInv s" and h: "(n, rid, p) \<in> set (handlers s)"
    and fl: "((n', rid'), p) \<in> set (flights s)"
  shows "n' = n \<and> rid' = rid"
proof -
  from inv h have own: "((n, rid), p) \<in> set (flights s)"
    by (auto simp: pInv_def hInv_def)
  from inv have "distinct (map snd (flights s))"
    by (simp add: pInv_def idInv_def flights_def)
  then have "inj_on snd (set (flights s))"
    by (simp add: distinct_map)
  from inj_onD [OF this, of "((n, rid), p)" "((n', rid'), p)"] own fl
  show ?thesis by simp
qed

text \<open>Once its own listener is removed, no listener waits for the promise.\<close>

lemma no_handler_left:
  assumes inv: "pInv s" and fl: "((n, rid), p) \<in> set (flights s)"
  shows "\<forall>h \<in> set (remove1 (n, rid, p) (handlers s)). snd (snd h) \<noteq> p"
proof
  fix h assume h: "h \<in> set (remove1 (n, rid, p) (handlers s))"
  obtain n' rid' p' where h': "h = (n', rid', p')" by (cases h)
  from inv have d: "distinct (handlers s)" by (simp add: pInv_def hInv_def)
  with h have "h \<in> set (handlers s)" "h \<noteq> (n, rid, p)" by auto
  with handler_unique [OF inv _ fl, of n' rid'] h'
  show "snd (snd h) \<noteq> p" by auto
qed

lemma pInv_handlers_remove: "pInv s \<Longrightarrow> pInv (s\<lparr>handlers := remove1 h (handlers s)\<rparr>)"
  by (auto simp: pInv_def idInv_def setInv_def hInv_def tInv_def flights_def inFlight_def
      dest: notin_set_remove1)

lemma pInv_timeout:
  assumes inv: "pInv s" and fl: "((n, rid), p) \<in> set (flights s)"
  shows "pInv (settleRequest p (Resolved None)
       (saveCacheEntry n None (s\<lparr>handlers := remove1 (n, rid, p) (handlers s)\<rparr>)))"
proof -
  let ?s1 = "s\<lparr>handlers := remove1 (n, rid, p) (handlers s)\<rparr>"
  let ?s2 = "saveCacheEntry n None ?s1"
  have "pInv ?s2"
    using inv by (intro pInv_saveCacheEntry pInv_handlers_remove)
  moreover have "handlers ?s2 = remove1 (n, rid, p) (handlers s)"
    and "dispatchLog ?s2 = dispatchLog s"
    by (simp_all add: saveCacheEntry_def Let_def)
  moreover from fl have "p \<in> set (map snd (dispatchLog s))"
    by (auto simp: flights_def dest: set_zip_rightD)
  ultimately show ?thesis
    using no_handler_left [OF inv fl] by (intro pInv_settleRequest) simp_all
qed

lemma pInv_handleResponse:
  assumes inv: "pInv s" and h: "h \<in> set (handlers s)"
  shows "pInv (handleResponse loc h s)"
proof -
  obtain n rid p where h': "h = (n, rid, p)" by (cases h)
  from inv h h' have fl: "((n, rid), p) \<in> set (flights s)"
    by (auto simp: pInv_def hInv_def)
  let ?s1 = "s\<lparr>handlers := remove1 (n, rid, p) (handlers s)\<rparr>"
  let ?s2 = "saveCacheEntry n (orNull loc) ?s1"
  have "pInv ?s2"
    using inv by (intro pInv_saveCacheEntry pInv_handlers_remove)
  moreover have "handlers ?s2 = remove1 (n, rid, p) (handlers s)"
    and "dispatchLog ?s2 = dispatchLog s"
    by (simp_all add: saveCacheEntry_def Let_def)
  moreover from fl have "p \<in> set (map snd (dispatchLog s))"
    by (auto simp: flights_def dest: set_zip_rightD)
  ultimately have "pInv (settleRequest p (Resolved (orNull loc)) ?s2)"
    using no_handler_left [OF inv fl] by (intro pInv_settleRequest) simp_all
  then show ?thesis by (simp add: handleResponse_def h')
qed

lemma handlers_handleResponse:
  "handlers (handleResponse loc h s) = remove1 h (handlers s)"
  by (cases h) (simp add: handleResponse_def settleRequest_def saveCacheEntry_def Let_def)

lemma pInv_fold_handleResponse:
  "pInv s \<Longrightarrow> distinct hs \<Longrightarrow> set hs \<subseteq> set (handlers s) \<Longrightarrow>
   pInv (fold (handleResponse loc) hs s)"
proof (induction hs arbitrary: s)
  case Nil
  then show ?case by simp
next
  case (Cons h hs)
  from Cons.prems have "pInv (handleResponse loc h s)"
    by (intro pInv_handleResponse) auto
  moreover have "x \<in> set (remove1 h (handlers s))" if "x \<in> set hs" for x
    using that Cons.prems by (cases "x = h") (auto simp: in_set_remove1)
  then have "set hs \<subseteq> set (handlers (handleResponse loc h s))"
    by (auto simp: handlers_handleResponse)
  ultimately show ?case
    using Cons.IH [of "handleResponse loc h s"] Cons.prems by simp
qed

lemma pInv_onMessage: "pInv s \<Longrightarrow> pInv (onMessage m s)"
proof (cases m)
  case (LocationResponse name loc rid)
  assume inv: "pInv s"
  then have "distinct (handlers s)" by (simp add: pInv_def hInv_def)
  with inv show ?thesis
    by (simp add: LocationResponse onMessage_def pInv_fold_handleResponse)
next
  case (RateLimitInfo r w)
  assume "pInv s"
  then have "pInv (s\<lparr>rateLimitResetTime := r\<rparr>)"
    by (rule pInv_frame) auto
  then show ?thesis by (simp add: RateLimitInfo onMessage_def)
next
  case OtherMessage
  assume "pInv s"
  then show ?thesis by (simp add: OtherMessage onMessage_def)
qed

lemma pInv_fire:
  assumes inv: "pInv s" and i: "i < length (timers s)"
  shows "pInv (runCallback (snd (timers s ! i))
            (s\<lparr>timers := take i (timers s) @ drop (Suc i) (timers s)\<rparr>))"
proof -
  let ?s = "s\<lparr>timers := take i (timers s) @ drop (Suc i) (timers s)\<rparr>"
  have sub: "t \<in> set (timers ?s) \<Longrightarrow> t \<in> set (timers s)" for t
    by (auto dest: in_set_takeD in_set_dropD)
  have inv': "pInv ?s"
  proof (rule pInv_frame [OF inv])
    fix t assume "t \<in> set (timers ?s)"
    then show "t \<in> set (timers s) \<or> \<not> isTimeout (snd t)"
      using sub by blast
  qed simp_all
  have inv'': "pInv (?s\<lparr>timers := timers ?s @ [(d, IntervalSave)]\<rparr>)" for d
    by (rule pInv_frame [OF inv']) auto
  show ?thesis
  proof (cases "snd (timers s ! i)")
    case (RequestTimeout n rid p)
    then have "(fst (timers s ! i), RequestTimeout n rid p) \<in> set (timers s)"
      using i by (metis nth_mem prod.collapse)
    with inv have "((n, rid), p) \<in> set (flights s)"
      by (auto simp: pInv_def tInv_def)
    then have "((n, rid), p) \<in> set (flights ?s)" by (simp add: flights_def)
    from pInv_timeout [OF inv' this] RequestTimeout show ?thesis by simp
  qed (use inv' inv'' in \<open>simp_all add: pInv_processRequestQueue pInv_queueLoop pInv_dispatch
      pInv_saveCache resumeLoop_def del: state.simps\<close>)
qed

lemma pInv_step: "pInv s \<Longrightarrow> pInv (step e s)"
proof (cases e)
  case (Tick d)
  assume inv: "pInv s"
  have "pInv (s\<lparr>clock := clock s + d\<rparr>)"
    by (rule pInv_frame [OF inv]) auto
  with inv show ?thesis by (simp add: Tick)
next
  case (Fire i)
  assume "pInv s"
  then show ?thesis by (simp add: Fire pInv_fire)
next
  case (Message m)
  assume "pInv s"
  then show ?thesis by (simp add: Message pInv_onMessage)
next
  case (GetUserLocation name)
  assume "pInv s"
  then show ?thesis by (simp add: GetUserLocation pInv_getUserLocation)
next
  case (StorageSetDone ok)
  assume "pInv s"
  then show ?thesis by (simp add: StorageSetDone pInv_storageSetDone)
qed

lemma pInv_run: "pInv s \<Longrightarrow> pInv (run es s)"
  unfolding run_def by (induction es arbitrary: s) (simp_all add: pInv_step)

lemma pInv_init: "pInv (init readOk (initial t0 stored))"
  by (simp add: pInv_def idInv_def setInv_def hInv_def tInv_def flights_def inFlight_def
      init_def loadCache_def storageGet_def initial_def Let_def split: option.splits)



section \<open>Properties\<close>

lemmas eval_defs = run_def init_def initial_def loadCache_def storageGet_def
  getUserLocation_def processRequestQueue_def queueLoop.simps resumeLoop_def dispatch_def
  makeLocationRequest_def settleRequest_def saveCacheEntry_def saveCache_def
  storageSetDone_def onMessage_def handleResponse_def orNull_def Let_def
  MAX_CONCURRENT_REQUESTS_def MIN_REQUEST_INTERVAL_def CACHE_EXPIRY_DAYS_def
  setProperty_def perform_def

subsection \<open>Rate limiter\<close>

text \<open>
  Five lookups arrive at once. \<open>a\<close> is dispatched at once and \<open>b\<close> one interval later;
  the others wait, since two requests are in flight. When the answer for \<open>a\<close> arrives,
  the queue is processed again 200 ms later, and \<open>c\<close> is dispatched one interval after
  \<open>b\<close>; \<open>d\<close> and \<open>e\<close> still wait.
\<close>

lemma five_requests:
  "dispatchLog (run [GetUserLocation ''a'', GetUserLocation ''b'', GetUserLocation ''c'',
        GetUserLocation ''d'', GetUserLocation ''e'', Tick 2000, Fire 2,
        Message (LocationResponse ''a'' (Some ''France'') (RequestId 1700000000000 0)),
        Tick 200, Fire 4, Tick 1800, Fire 4]
      (init True (initial 1700000000000 None)))
     = [(1700000000000, 0), (1700000002000, 1), (1700000004000, 2)] \<and>
   activeRequests (run [GetUserLocation ''a'', GetUserLocation ''b'', GetUserLocation ''c'',
        GetUserLocation ''d'', GetUserLocation ''e'', Tick 2000, Fire 2,
        Message (LocationResponse ''a'' (Some ''France'') (RequestId 1700000000000 0)),
        Tick 200, Fire 4, Tick 1800, Fire 4]
      (init True (initial 1700000000000 None))) = 2 \<and>
   map screenName (requestQueue (run [GetUserLocation ''a'', GetUserLocation ''b'',
        GetUserLocation ''c'', GetUserLocation ''d'', GetUserLocation ''e'', Tick 2000, Fire 2,
        Message (LocationResponse ''a'' (Some ''France'') (RequestId 1700000000000 0)),
        Tick 200, Fire 4, Tick 1800, Fire 4]
      (init True (initial 1700000000000 None)))) = [''d'', ''e'']"
  by (simp add: eval_defs)

text \<open>
  C1. After every sequence of events, starting from the initialised script:
  \<open>activeRequests\<close> is at most \<open>MAX_CONCURRENT_REQUESTS = 2\<close>; it equals the number of
  requests that were dispatched and are not settled; and the times at which successive
  requests were dispatched (the values assigned to \<open>lastRequestTime\<close>) lie at least
  \<open>MIN_REQUEST_INTERVAL = 2000\<close> ms apart, from one dispatch to the next.
\<close>

theorem rate_limiter_bounds:
  "activeRequests (run es (init readOk (initial t0 stored))) \<le> MAX_CONCURRENT_REQUESTS \<and>
   MAX_CONCURRENT_REQUESTS = 2 \<and>
   int (length (inFlight (run es (init readOk (initial t0 stored))))) =
     activeRequests (run es (init readOk (initial t0 stored))) \<and>
   spaced (map fst (dispatchLog (run es (init readOk (initial t0 stored))))) \<and>
   MIN_REQUEST_INTERVAL = 2000"
proof -
  let ?s = "run es (init readOk (initial t0 stored))"
  have "qInv ?s" by (intro qInv_run qInv_init)
  moreover have "pInv ?s" by (intro pInv_run pInv_init)
  ultimately show ?thesis
    by (simp add: qInv_def loopInv_def logInv_def pInv_def setInv_def
        MAX_CONCURRENT_REQUESTS_def MIN_REQUEST_INTERVAL_def)
qed


subsection \<open>Timeouts\<close>

lemma settled_saveCacheEntry [simp]: "settled (saveCacheEntry u l s) = settled s"
  by (simp add: saveCacheEntry_def Let_def)

lemma locationCache_settleRequest [simp]:
  "locationCache (settleRequest p out s) = locationCache s"
  by (simp add: settleRequest_def)

lemma locationCache_saveCacheEntry [simp]:
  "locationCache (saveCacheEntry u l s) = AList.update u l (locationCache s)"
  by (simp add: saveCacheEntry_def Let_def)

lemma fire_timeout:
  assumes "i < length (timers s)" "timers s ! i = (due, RequestTimeout name rid p)"
    "due \<le> clock s"
  shows "step (Fire i) s =
     settleRequest p (Resolved None)
       (saveCacheEntry name None
          (s\<lparr>timers := take i (timers s) @ drop (Suc i) (timers s),
             handlers := remove1 (name, rid, p) (handlers s)\<rparr>))"
  using assms by simp



text \<open>A pending timer leaves the list only by running: nothing clears a timer.\<close>

lemma timers_saveCacheEntry: "set (timers s) \<subseteq> set (timers (saveCacheEntry u l s))"
  by (auto simp: saveCacheEntry_def Let_def)

lemma timers_settleRequest: "set (timers s) \<subseteq> set (timers (settleRequest p out s))"
  by (auto simp: settleRequest_def)

lemma timers_dispatch: "set (timers s) \<subseteq> set (timers (dispatch s))"
  by (auto simp: dispatch_def makeLocationRequest_def Let_def split: list.splits)

lemma timers_queueLoop: "set (timers s) \<subseteq> set (timers (queueLoop s))"
proof (induction s rule: queueLoop.induct)
  case (1 s)
  show ?case
  proof (cases "requestQueue s \<noteq> [] \<and> activeRequests s < MAX_CONCURRENT_REQUESTS \<and>
      \<not> clock s - lastRequestTime s < MIN_REQUEST_INTERVAL")
    case True
    with "1.IH" [OF _ refl refl] timers_dispatch [of s]
    have "set (timers s) \<subseteq> set (timers (queueLoop (dispatch s)))" by auto
    with True show ?thesis
      by (subst queueLoop.simps) (simp add: Let_def)
  next
    case False
    then show ?thesis
      by (subst queueLoop.simps) (auto simp: Let_def)
  qed
qed

lemma timers_processRequestQueue: "set (timers s) \<subseteq> set (timers (processRequestQueue s))"
  using timers_queueLoop [of "s\<lparr>isProcessingQueue := True\<rparr>"]
    timers_queueLoop [of "s\<lparr>rateLimitResetTime := 0, isProcessingQueue := True\<rparr>"]
  by (auto simp: processRequestQueue_def Let_def)

lemma timers_getUserLocation: "set (timers s) \<subseteq> set (timers (snd (getUserLocation name s)))"
  using timers_processRequestQueue [of "s\<lparr>nextPromise := nextPromise s + 1,
       requestQueue := requestQueue s @ [\<lparr>screenName = name, promise = nextPromise s\<rparr>]\<rparr>"]
  by (auto simp: getUserLocation_def Let_def split: option.splits)

lemma timers_handleResponse: "set (timers s) \<subseteq> set (timers (handleResponse loc h s))"
proof -
  obtain n rid p where h: "h = (n, rid, p)" by (cases h)
  let ?s1 = "s\<lparr>handlers := remove1 h (handlers s)\<rparr>"
  have "set (timers ?s1) \<subseteq> set (timers (saveCacheEntry n (orNull loc) ?s1))"
    by (rule timers_saveCacheEntry)
  also have "\<dots> \<subseteq> set (timers (settleRequest p (Resolved (orNull loc))
      (saveCacheEntry n (orNull loc) ?s1)))"
    by (rule timers_settleRequest)
  finally show ?thesis by (simp add: handleResponse_def h)
qed

lemma timers_fold_handleResponse:
  "set (timers s) \<subseteq> set (timers (fold (handleResponse loc) hs s))"
proof (induction hs arbitrary: s)
  case Nil
  show ?case by simp
next
  case (Cons h hs)
  from timers_handleResponse [of s loc h] Cons [of "handleResponse loc h s"]
  show ?case by auto
qed

lemma timers_onMessage: "set (timers s) \<subseteq> set (timers (onMessage m s))"
  using timers_fold_handleResponse by (cases m) (auto simp: onMessage_def)

lemma timers_runCallback: "set (timers s) \<subseteq> set (timers (runCallback cb s))"
proof (cases cb)
  case ProcessRequestQueue
  then show ?thesis using timers_processRequestQueue by simp
next
  case ResumeLoop
  then show ?thesis using timers_dispatch [of s] timers_queueLoop [of "dispatch s"]
    by (auto simp: resumeLoop_def)
next
  case (RequestTimeout n rid p)
  let ?s1 = "s\<lparr>handlers := remove1 (n, rid, p) (handlers s)\<rparr>"
  have "set (timers ?s1) \<subseteq> set (timers (saveCacheEntry n None ?s1))"
    by (rule timers_saveCacheEntry)
  also have "\<dots> \<subseteq> set (timers (settleRequest p (Resolved None) (saveCacheEntry n None ?s1)))"
    by (rule timers_settleRequest)
  finally show ?thesis by (simp add: RequestTimeout)
next
  case PersistCache
  then show ?thesis by (simp add: saveCache_def Let_def)
next
  case IntervalSave
  then show ?thesis by (auto simp: saveCache_def Let_def)
qed

lemma timers_step:
  assumes "x \<in> set (timers s)"
  shows "x \<in> set (timers (step e s)) \<or>
     (\<exists>i. e = Fire i \<and> i < length (timers s) \<and> timers s ! i = x \<and> fst x \<le> clock s)"
proof (cases e)
  case (Tick d)
  with assms show ?thesis by simp
next
  case (Fire i)
  show ?thesis
  proof (cases "i < length (timers s) \<and> fst (timers s ! i) \<le> clock s")
    case False
    with assms Fire show ?thesis by auto
  next
    case True
    show ?thesis
    proof (cases "timers s ! i = x")
      case True
      with \<open>i < length (timers s) \<and> fst (timers s ! i) \<le> clock s\<close> Fire show ?thesis by auto
    next
      case False
      let ?s = "s\<lparr>timers := take i (timers s) @ drop (Suc i) (timers s)\<rparr>"
      have "set (timers s) = set (take i (timers s)) \<union> set (drop i (timers s))"
        by (simp only: set_append [symmetric] append_take_drop_id)
      moreover have "set (drop i (timers s)) =
          insert (timers s ! i) (set (drop (Suc i) (timers s)))"
        using arg_cong [OF Cons_nth_drop_Suc [of i "timers s"], of set] True by simp
      ultimately have "set (timers s) =
          set (take i (timers s)) \<union> insert (timers s ! i) (set (drop (Suc i) (timers s)))"
        by simp
      with assms False have "x \<in> set (timers ?s)"
        by auto
      with timers_runCallback [of ?s "snd (timers s ! i)"] True Fire show ?thesis by auto
    qed
  qed
next
  case (Message m)
  with assms timers_onMessage [of s m] show ?thesis by auto
next
  case (GetUserLocation name)
  with assms timers_getUserLocation [of s name] show ?thesis by auto
next
  case (StorageSetDone ok)
  with assms show ?thesis by (auto simp: storageSetDone_def split: list.splits)
qed

text \<open>
  C4. A pending timeout of \<open>makeLocationRequest\<close> is never cancelled: whatever happens
  next, it stays pending unless it is the timer that runs. And when it runs, in any state,
  settled or not, the in-memory cache entry of the handle becomes \<open>null\<close>, while a promise
  that was settled before (by a response carrying a location) keeps its value.
\<close>

theorem timeout_never_cancelled:
  assumes pending: "(due, RequestTimeout name rid p) \<in> set (timers s)"
  shows "((due, RequestTimeout name rid p) \<in> set (timers (step e s)) \<or>
          (\<exists>i. e = Fire i \<and> i < length (timers s) \<and>
               timers s ! i = (due, RequestTimeout name rid p) \<and> due \<le> clock s)) \<and>
         (\<forall>i. i < length (timers s) \<and> timers s ! i = (due, RequestTimeout name rid p) \<and>
               due \<le> clock s \<longrightarrow>
               map_of (locationCache (step (Fire i) s)) name = Some None \<and>
               (settled s p \<noteq> None \<longrightarrow> settled (step (Fire i) s) = settled s))"
proof -
  have "map_of (locationCache (step (Fire i) s)) name = Some None \<and>
        (settled s p \<noteq> None \<longrightarrow> settled (step (Fire i) s) = settled s)"
    if "i < length (timers s)" "timers s ! i = (due, RequestTimeout name rid p)" "due \<le> clock s"
    for i
    unfolding fire_timeout [OF that]
    by (simp add: update_conv' settleRequest_def)
  with timers_step [OF pending, of e] show ?thesis by auto
qed

text \<open>
  A lookup of \<open>alice\<close> is answered with \<open>France\<close>; 10 s after the dispatch the timeout
  runs all the same and replaces the cached \<open>France\<close> by \<open>null\<close>.
\<close>

theorem timeout_never_cancelled_witness:
  "(1700000010000, RequestTimeout ''alice'' (RequestId 1700000000000 0) 0)
      \<in> set (timers (run [GetUserLocation ''alice'',
            Message (LocationResponse ''alice'' (Some ''France'') (RequestId 1700000000000 0)),
            Tick 10000] (init True (initial 1700000000000 None)))) \<and>
   map_of (locationCache (run [GetUserLocation ''alice'',
            Message (LocationResponse ''alice'' (Some ''France'') (RequestId 1700000000000 0)),
            Tick 10000] (init True (initial 1700000000000 None)))) ''alice'' = Some (Some ''France'') \<and>
   settled (run [GetUserLocation ''alice'',
            Message (LocationResponse ''alice'' (Some ''France'') (RequestId 1700000000000 0)),
            Tick 10000] (init True (initial 1700000000000 None))) 0 = Some (Resolved (Some ''France'')) \<and>
   map_of (locationCache (step (Fire 1) (run [GetUserLocation ''alice'',
            Message (LocationResponse ''alice'' (Some ''France'') (RequestId 1700000000000 0)),
            Tick 10000] (init True (initial 1700000000000 None))))) ''alice'' = Some None \<and>
   settled (step (Fire 1) (run [GetUserLocation ''alice'',
            Message (LocationResponse ''alice'' (Some ''France'') (RequestId 1700000000000 0)),
            Tick 10000] (init True (initial 1700000000000 None)))) 0 = Some (Resolved (Some ''France''))"
proof -
  let ?s = "run [GetUserLocation ''alice'',
            Message (LocationResponse ''alice'' (Some ''France'') (RequestId 1700000000000 0)),
            Tick 10000] (init True (initial 1700000000000 None))"
  let ?x = "(1700000010000, RequestTimeout ''alice'' (RequestId 1700000000000 0) 0)"
  have t: "timers ?s ! 1 = ?x" and l: "1 < length (timers ?s)" and c: "1700000010000 \<le> clock ?s"
    and before: "map_of (locationCache ?s) ''alice'' = Some (Some ''France'')"
      "settled ?s 0 = Some (Resolved (Some ''France''))"
    by (simp_all add: eval_defs)
  from l t have m: "?x \<in> set (timers ?s)" by (metis nth_mem)
  from timeout_never_cancelled [OF m, of "Tick 0"] l t c before
  have "map_of (locationCache (step (Fire 1) ?s)) ''alice'' = Some None"
    "settled (step (Fire 1) ?s) = settled ?s"
    by auto
  with m before show ?thesis by simp
qed



subsection \<open>Rate-limit signal\<close>

text \<open>
  Called while the script is rate limited, with requests waiting and no loop in progress,
  \<open>processRequestQueue\<close> dispatches nothing: it only schedules itself again, after the
  remaining wait or 60 s, whichever is shorter.
\<close>

lemma processRequestQueue_limited:
  assumes "\<not> isProcessingQueue s" "requestQueue s \<noteq> []"
    and "clock s div 1000 < rateLimitResetTime s" "0 \<le> clock s"
  shows "processRequestQueue s =
     s\<lparr>timers := timers s @
        [(clock s + min ((rateLimitResetTime s - clock s div 1000) * 1000) 60000,
          ProcessRequestQueue)]\<rparr>"
proof -
  from assms(3,4) have "rateLimitResetTime s > 0"
    by (smt (verit) pos_imp_zdiv_nonneg_iff)
  with assms show ?thesis by (simp add: processRequestQueue_def Let_def)
qed

text \<open>
  C2. The rate-limit state is consulted when \<open>processRequestQueue\<close> starts, not before each
  dispatch. Here \<open>a\<close> is dispatched, and the loop waits out the interval before
  dispatching \<open>b\<close>. During the wait a rate-limit notice arrives with a reset time about
  15 minutes ahead. Two seconds later the loop resumes, and dispatches \<open>b\<close> while the
  clock (1700000002 s) is still before the recorded reset time (1700000900 s).
\<close>

theorem dispatch_while_rate_limited:
  "dispatchLog (run [GetUserLocation ''a'', GetUserLocation ''b'',
        Message (RateLimitInfo 1700000900 898000), Tick 2000]
      (init True (initial 1700000000000 None))) = [(1700000000000, 0)] \<and>
   rateLimitResetTime (run [GetUserLocation ''a'', GetUserLocation ''b'',
        Message (RateLimitInfo 1700000900 898000), Tick 2000]
      (init True (initial 1700000000000 None))) = 1700000900 \<and>
   clock (run [GetUserLocation ''a'', GetUserLocation ''b'',
        Message (RateLimitInfo 1700000900 898000), Tick 2000]
      (init True (initial 1700000000000 None))) = 1700000002000 \<and>
   dispatchLog (run [GetUserLocation ''a'', GetUserLocation ''b'',
        Message (RateLimitInfo 1700000900 898000), Tick 2000, Fire 2]
      (init True (initial 1700000000000 None))) = [(1700000000000, 0), (1700000002000, 1)] \<and>
   outbox (run [GetUserLocation ''a'', GetUserLocation ''b'',
        Message (RateLimitInfo 1700000900 898000), Tick 2000, Fire 2]
      (init True (initial 1700000000000 None)))
     = [(''a'', RequestId 1700000000000 0), (''b'', RequestId 1700000002000 1)]"
  by (simp add: eval_defs)

subsection \<open>Cache lookup\<close>

text \<open>
  C6. For a handle that has an entry in the in-memory cache, whatever its value (a
  location or \<open>null\<close>), \<open>getUserLocation\<close> returns the cached value and leaves the whole
  state as it was: the request queue, the storage and everything else.
\<close>

theorem getUserLocation_cached:
  "map_of (locationCache s) name = Some cached \<Longrightarrow>
     getUserLocation name s = (Cached cached, s) \<and> step (GetUserLocation name) s = s"
  by (simp add: getUserLocation_def)

text \<open>A cached \<open>null\<close> for \<open>alice\<close> is returned, and nothing is queued.\<close>

theorem getUserLocation_cached_witness:
  "map_of (locationCache ((initial 0 None)\<lparr>locationCache := [(''alice'', None)]\<rparr>)) ''alice''
     = Some None \<and>
   getUserLocation ''alice'' ((initial 0 None)\<lparr>locationCache := [(''alice'', None)]\<rparr>)
     = (Cached None, (initial 0 None)\<lparr>locationCache := [(''alice'', None)]\<rparr>) \<and>
   requestQueue (step (GetUserLocation ''alice'')
       ((initial 0 None)\<lparr>locationCache := [(''alice'', None)]\<rparr>)) = []"
proof -
  have c: "map_of (locationCache ((initial 0 None)\<lparr>locationCache := [(''alice'', None)]\<rparr>))
      ''alice'' = Some None"
    by simp
  from getUserLocation_cached [OF c] c show ?thesis by (simp add: initial_def)
qed

text \<open>A handle without an entry is queued.\<close>

lemma getUserLocation_miss:
  "requestQueue (snd (getUserLocation ''bob''
      ((initial 0 None)\<lparr>locationCache := [(''alice'', None)]\<rparr>)))
   = [\<lparr>screenName = ''bob'', promise = 0\<rparr>]"
  by (simp add: eval_defs)

subsection \<open>Persistent cache\<close>

lemma readable_keys: "fst ` set (readable cached) \<subseteq> fst ` set cached"
  by (induction cached rule: readable.induct) auto

lemma admitEntries_map_of:
  "distinct (map fst cached) \<Longrightarrow>
   map_of (snd (admitEntries now cached cache)) u =
     (case map_of (readable cached) u of
        Some d \<Rightarrow> if admitted now d then Some (location d) else map_of cache u
      | None \<Rightarrow> map_of cache u)"
proof (induction now cached cache rule: admitEntries.induct)
  case (1 now cache)
  then show ?case by simp
next
  case (2 now username rest cache)
  then show ?case by simp
next
  case (3 now username d rest cache)
  from "3.prems" readable_keys [of rest] have k: "map_of (readable rest) username = None"
    by (auto simp: map_of_eq_None_iff)
  from "3.prems" have dist: "distinct (map fst rest)" by simp
  show ?case
    using "3.IH" [OF dist] k
    by (auto simp: update_conv' split: option.splits)
qed

text \<open>The loop throws exactly when some stored entry is \<open>null\<close>.\<close>

lemma admitEntries_error:
  "fst (admitEntries now cached cache) =
     (if None \<in> snd ` set cached then Some TypeError else None)"
  by (induction now cached cache rule: admitEntries.induct) auto

text \<open>Without a \<open>null\<close> entry every stored entry is read.\<close>

lemma readable_all:
  "None \<notin> snd ` set cached \<Longrightarrow> map_of (readable cached) u = Some d \<longleftrightarrow> map_of cached u = Some (Some d)"
  by (induction cached rule: readable.induct) auto

text \<open>
  C7. The property as the specification states it does not hold of \<open>loadCache\<close>. The
  stored object holds \<open>alice\<close>, \<open>bob\<close> and \<open>carol\<close>, in this order; the entries of
  \<open>alice\<close> and \<open>carol\<close> expire after the clock reading 1000 of the load, the entry of
  \<open>bob\<close> is \<open>null\<close>. Reading \<open>data.expiry\<close> of the entry of \<open>bob\<close> throws: the map is
  not empty after this error, since the entry of \<open>alice\<close> has been admitted before it, and
  the entry of \<open>carol\<close> is absent although its \<open>expiry\<close> exists and exceeds the clock
  reading.
\<close>

theorem loadCache_null_entry:
  "fst (admitEntries 1000
      [(''alice'', Some \<lparr>location = Some ''France'', expiry = Some 2000, cachedAt = Some 5\<rparr>),
       (''bob'', None),
       (''carol'', Some \<lparr>location = Some ''Italy'', expiry = Some 3000, cachedAt = Some 5\<rparr>)]
      []) = Some TypeError \<and>
   locationCache (init True (initial 1000 (Some
      [(''alice'', Some \<lparr>location = Some ''France'', expiry = Some 2000, cachedAt = Some 5\<rparr>),
       (''bob'', None),
       (''carol'', Some \<lparr>location = Some ''Italy'', expiry = Some 3000, cachedAt = Some 5\<rparr>)])))
     = [(''alice'', Some ''France'')] \<and>
   map_of (locationCache (init True (initial 1000 (Some
      [(''alice'', Some \<lparr>location = Some ''France'', expiry = Some 2000, cachedAt = Some 5\<rparr>),
       (''bob'', None),
       (''carol'', Some \<lparr>location = Some ''Italy'', expiry = Some 3000, cachedAt = Some 5\<rparr>)]))))
     ''carol'' = None"
  by (simp add: init_def loadCache_def storageGet_def initial_def admitted_def)

text \<open>
  C7, amended. The script loads the cache once, into the empty map it starts with. With
  the clock not before the epoch and the keys of the stored object \<open>cached\<close> distinct: of
  the stored entries that \<open>Object.entries\<close> enumerates before the first \<open>null\<close> entry (all
  of them when there is none), one is in the map after the load, with its location,
  exactly when it has an \<open>expiry\<close> field that is greater than the clock reading; an entry
  with its expiry in the past or without expiry is absent, and so is every entry from the
  first \<open>null\<close> entry on, and every handle that is not stored. When reading the storage
  fails, the load changes nothing, so the map stays empty.
\<close>

theorem loadCache_admits:
  assumes now: "0 \<le> t0" and keys: "distinct (map fst cached)"
  shows "map_of (locationCache
            (loadCache (storageGet True (initial t0 (Some cached))) (initial t0 (Some cached)))) u
         = (case map_of (readable cached) u of
              Some d \<Rightarrow> if \<exists>e. expiry d = Some e \<and> e > t0 then Some (location d) else None
            | None \<Rightarrow> None) \<and>
         locationCache
            (loadCache (storageGet False (initial t0 (Some cached))) (initial t0 (Some cached)))
         = [] \<and>
         loadCache (Inl err) s = s"
proof -
  have a: "admitted t0 d \<longleftrightarrow> (\<exists>e. expiry d = Some e \<and> e > t0)" for d
    using now by (auto simp: admitted_def split: option.splits)
  have "locationCache
      (loadCache (storageGet True (initial t0 (Some cached))) (initial t0 (Some cached)))
      = snd (admitEntries t0 cached [])"
    by (simp add: loadCache_def storageGet_def initial_def split: prod.splits)
  then show ?thesis
    using a by (auto simp: loadCache_def storageGet_def initial_def admitEntries_map_of [OF keys]
        split: option.splits)
qed

text \<open>
  Five stored entries at clock reading 1000: \<open>alice\<close> expires at 2000 and is loaded,
  \<open>bob\<close> expired at 900 and \<open>carol\<close> has no expiry, so both are absent; the entry of
  \<open>dave\<close> is \<open>null\<close>, so that the entry of \<open>erin\<close>, which comes after it, is absent as
  well, and \<open>frank\<close> is not stored.
\<close>

theorem loadCache_admits_witness:
  "map (map_of (locationCache
      (loadCache (storageGet True (initial 1000
           (Some [(''alice'', Some \<lparr>location = Some ''France'', expiry = Some 2000, cachedAt = Some 5\<rparr>),
                  (''bob'', Some \<lparr>location = Some ''Spain'', expiry = Some 900, cachedAt = Some 5\<rparr>),
                  (''carol'', Some \<lparr>location = Some ''Italy'', expiry = None, cachedAt = None\<rparr>),
                  (''dave'', None),
                  (''erin'', Some \<lparr>location = Some ''Peru'', expiry = Some 3000, cachedAt = Some 5\<rparr>)])))
         (initial 1000
           (Some [(''alice'', Some \<lparr>location = Some ''France'', expiry = Some 2000, cachedAt = Some 5\<rparr>),
                  (''bob'', Some \<lparr>location = Some ''Spain'', expiry = Some 900, cachedAt = Some 5\<rparr>),
                  (''carol'', Some \<lparr>location = Some ''Italy'', expiry = None, cachedAt = None\<rparr>),
                  (''dave'', None),
                  (''erin'', Some \<lparr>location = Some ''Peru'', expiry = Some 3000, cachedAt = Some 5\<rparr>)])))))
      [''alice'', ''bob'', ''carol'', ''dave'', ''erin'', ''frank'']
    = [Some (Some ''France''), None, None, None, None, None]"
proof -
  let ?cached = "[(''alice'', Some \<lparr>location = Some ''France'', expiry = Some 2000, cachedAt = Some 5\<rparr>),
                  (''bob'', Some \<lparr>location = Some ''Spain'', expiry = Some 900, cachedAt = Some 5\<rparr>),
                  (''carol'', Some \<lparr>location = Some ''Italy'', expiry = None, cachedAt = None\<rparr>),
                  (''dave'', None),
                  (''erin'', Some \<lparr>location = Some ''Peru'', expiry = Some 3000, cachedAt = Some 5\<rparr>)]"
  have now: "(0::int) \<le> 1000" and keys: "distinct (map fst ?cached)"
    by simp_all
  from loadCache_admits [OF now keys, of "''alice''"] loadCache_admits [OF now keys, of "''bob''"]
    loadCache_admits [OF now keys, of "''carol''"] loadCache_admits [OF now keys, of "''dave''"]
    loadCache_admits [OF now keys, of "''erin''"] loadCache_admits [OF now keys, of "''frank''"]
  show ?thesis by simp
qed

subsection \<open>Debounced persist\<close>

text \<open>The request queue does not touch the cache side.\<close>

lemma sameCacheSide_trans:
  "sameCacheSide s s' \<Longrightarrow> sameCacheSide s' s'' \<Longrightarrow> sameCacheSide s s''"
  by (simp add: sameCacheSide_def)

lemma sameCacheSide_dispatch: "sameCacheSide s (dispatch s)"
  by (simp add: sameCacheSide_def dispatch_def makeLocationRequest_def Let_def dues_def
      split: list.splits)

lemma sameCacheSide_queueLoop: "sameCacheSide s (queueLoop s)"
proof (induction s rule: queueLoop.induct)
  case (1 s)
  show ?case
  proof (cases "requestQueue s \<noteq> [] \<and> activeRequests s < MAX_CONCURRENT_REQUESTS \<and>
      \<not> clock s - lastRequestTime s < MIN_REQUEST_INTERVAL")
    case True
    with "1.IH" [OF _ refl refl] sameCacheSide_dispatch [of s]
    have "sameCacheSide s (queueLoop (dispatch s))"
      by (auto intro: sameCacheSide_trans)
    with True show ?thesis
      by (subst queueLoop.simps) (simp add: Let_def)
  next
    case False
    then show ?thesis
      by (subst queueLoop.simps) (auto simp: Let_def sameCacheSide_def dues_def)
  qed
qed

lemma sameCacheSide_resumeLoop: "sameCacheSide s (resumeLoop s)"
  using sameCacheSide_trans [OF sameCacheSide_dispatch sameCacheSide_queueLoop, of s]
  by (simp add: resumeLoop_def sameCacheSide_def)

lemma sameCacheSide_processRequestQueue: "sameCacheSide s (processRequestQueue s)"
  using sameCacheSide_queueLoop [of "s\<lparr>isProcessingQueue := True\<rparr>"]
    sameCacheSide_queueLoop [of "s\<lparr>rateLimitResetTime := 0, isProcessingQueue := True\<rparr>"]
  by (simp add: processRequestQueue_def Let_def sameCacheSide_def dues_def)

lemma sameCacheSide_getUserLocation: "sameCacheSide s (snd (getUserLocation name s))"
  using sameCacheSide_processRequestQueue [of "s\<lparr>nextPromise := nextPromise s + 1,
       requestQueue := requestQueue s @ [\<lparr>screenName = name, promise = nextPromise s\<rparr>]\<rparr>"]
  by (simp add: getUserLocation_def Let_def sameCacheSide_def dues_def split: option.splits)

lemma sameCacheSide_settleRequest: "sameCacheSide s (settleRequest p out s)"
  by (simp add: settleRequest_def sameCacheSide_def dues_def)

text \<open>At most one debounced persist at a time.\<close>

lemma persistInv_frame: "persistInv s \<Longrightarrow> sameCacheSide s s' \<Longrightarrow> persistInv s'"
  by (simp add: persistInv_def sameCacheSide_def)

lemma persistInv_saveCacheEntry: "persistInv s \<Longrightarrow> persistInv (saveCacheEntry u l s)"
  by (auto simp: persistInv_def saveCacheEntry_def Let_def dues_def)

lemma persistInv_handleResponse: "persistInv s \<Longrightarrow> persistInv (handleResponse loc h s)"
proof -
  assume inv: "persistInv s"
  have "persistInv (s\<lparr>handlers := remove1 h (handlers s)\<rparr>)"
    by (rule persistInv_frame [OF inv]) (simp add: sameCacheSide_def dues_def)
  then show ?thesis
    by (cases h)
       (auto simp: handleResponse_def simp del: state.simps
          intro!: persistInv_frame [OF _ sameCacheSide_settleRequest] persistInv_saveCacheEntry)
qed

lemma persistInv_fold_handleResponse:
  "persistInv s \<Longrightarrow> persistInv (fold (handleResponse loc) hs s)"
  by (induction hs arbitrary: s) (simp_all add: persistInv_handleResponse)

lemma persistInv_fire:
  assumes inv: "persistInv s" and i: "i < length (timers s)"
  shows "persistInv (runCallback (snd (timers s ! i))
            (s\<lparr>timers := take i (timers s) @ drop (Suc i) (timers s)\<rparr>))"
proof -
  let ?s = "s\<lparr>timers := take i (timers s) @ drop (Suc i) (timers s)\<rparr>"
  show ?thesis
  proof (cases "snd (timers s ! i) = PersistCache")
    case True
    from dues_remove [OF i, of PersistCache] True
    have "length (dues PersistCache s) = Suc (length (dues PersistCache ?s))"
      by (simp add: dues_removed)
    with inv have "persistInv (saveCache True ?s)"
      by (auto simp: persistInv_def saveCache_def Let_def dues_def split: if_splits)
    with True show ?thesis by simp
  next
    case False
    with dues_remove [OF i, of PersistCache]
    have "dues PersistCache ?s = dues PersistCache s" by (simp add: dues_removed)
    then have inv': "persistInv ?s"
      by (intro persistInv_frame [OF inv]) (simp add: sameCacheSide_def)
    show ?thesis
    proof (cases "snd (timers s ! i)")
      case ProcessRequestQueue
      with persistInv_frame [OF inv' sameCacheSide_processRequestQueue] show ?thesis by simp
    next
      case ResumeLoop
      with persistInv_frame [OF inv' sameCacheSide_resumeLoop] show ?thesis by simp
    next
      case (RequestTimeout n rid p)
      have "persistInv (?s\<lparr>handlers := remove1 (n, rid, p) (handlers ?s)\<rparr>)"
        by (rule persistInv_frame [OF inv']) (simp add: sameCacheSide_def dues_def)
      then have "persistInv (settleRequest p (Resolved None)
          (saveCacheEntry n None (?s\<lparr>handlers := remove1 (n, rid, p) (handlers ?s)\<rparr>)))"
        by (intro persistInv_frame [OF _ sameCacheSide_settleRequest] persistInv_saveCacheEntry)
      with RequestTimeout show ?thesis by simp
    next
      case PersistCache
      with False show ?thesis by simp
    next
      case IntervalSave
      from inv' have "persistInv (saveCache False
          (?s\<lparr>timers := timers ?s @ [(clock ?s + 30000, IntervalSave)]\<rparr>))"
        by (simp add: persistInv_def saveCache_def Let_def dues_def)
      with IntervalSave show ?thesis by simp
    qed
  qed
qed

lemma persistInv_storageSetDone: "persistInv s \<Longrightarrow> persistInv (storageSetDone ok s)"
  by (auto simp: persistInv_def storageSetDone_def dues_def split: list.splits if_splits)

lemma persistInv_step: "persistInv s \<Longrightarrow> persistInv (step e s)"
proof (cases e)
  case (Tick d)
  assume inv: "persistInv s"
  then show ?thesis by (auto simp: Tick persistInv_def dues_def)
next
  case (Fire i)
  assume "persistInv s"
  then show ?thesis by (simp add: Fire persistInv_fire)
next
  case (Message m)
  assume inv: "persistInv s"
  have "persistInv (s\<lparr>rateLimitResetTime := r\<rparr>)" for r
    by (rule persistInv_frame [OF inv]) (simp add: sameCacheSide_def dues_def)
  with inv show ?thesis
    by (cases m) (simp_all add: Message onMessage_def persistInv_fold_handleResponse)
next
  case (GetUserLocation name)
  assume "persistInv s"
  then show ?thesis
    by (simp add: GetUserLocation persistInv_frame [OF _ sameCacheSide_getUserLocation])
next
  case (StorageSetDone ok)
  assume "persistInv s"
  then show ?thesis by (simp add: StorageSetDone persistInv_storageSetDone)
qed

lemma persistInv_act: "persistInv s \<Longrightarrow> persistInv (act a s)"
  by (cases a) (simp_all add: persistInv_saveCacheEntry persistInv_step)

lemma persistInv_perform: "persistInv s \<Longrightarrow> persistInv (perform as s)"
  unfolding perform_def by (induction as arbitrary: s) (simp_all add: persistInv_act)

lemma persistInv_init: "persistInv (init readOk (initial t0 stored))"
  by (simp add: persistInv_def init_def loadCache_def storageGet_def initial_def Let_def dues_def
      split: option.splits)

lemma perform_events: "perform (map Happens es) s = run es s"
  unfolding perform_def run_def by (induction es arbitrary: s) simp_all


text \<open>
  In every state the script can reach, at most one debounced persist is scheduled or
  under way, and \<open>saveCache.timeout\<close> tells whether there is one.
\<close>

lemma persist_single:
  "length (dues PersistCache (run es (init readOk (initial t0 stored)))) +
   length (filter snd (pendingSets (run es (init readOk (initial t0 stored))))) =
     (if saveCache_timeout (run es (init readOk (initial t0 stored))) then 1 else 0)"
  using persistInv_perform [OF persistInv_init, of "map Happens es" readOk t0 stored]
  by (simp add: persistInv_def perform_events)





















subsection \<open>Flush\<close>

text \<open>The keys of the in-memory cache stay distinct.\<close>

lemma buildCacheObj_append:
  "distinct (map fst cache) \<Longrightarrow> fst ` set cache \<inter> fst ` set acc = {} \<Longrightarrow>
   buildCacheObj now e cache acc =
     acc @ map (\<lambda>(u, loc). (u, Some \<lparr>location = loc, expiry = Some e, cachedAt = Some now\<rparr>))
             (filter (\<lambda>(u, loc). u \<noteq> ''__proto__'') cache)"
proof (induction cache arbitrary: acc)
  case Nil
  then show ?case by simp
next
  case (Cons a cache)
  obtain k v where a: "a = (k, v)" by (cases a)
  from Cons.prems a have fresh: "k \<notin> fst ` set acc" by auto
  have upd: "AList.update k x acc = acc @ [(k, x)]" for x
    using fresh by (induction acc) auto
  from Cons.prems a have dist: "distinct (map fst cache)"
    and apart: "fst ` set cache \<inter> fst ` set acc = {}"
    and "fst ` set cache \<inter>
      fst ` set (acc @ [(k, Some \<lparr>location = v, expiry = Some e, cachedAt = Some now\<rparr>)]) = {}"
    by auto
  from Cons.IH [OF dist this(3)] Cons.IH [OF dist apart] show ?case
    by (simp add: a upd setProperty_def)
qed

lemma cInv_frame: "cInv s \<Longrightarrow> locationCache s' = locationCache s \<Longrightarrow> cInv s'"
  by (simp add: cInv_def)

lemma cInv_same: "cInv s \<Longrightarrow> sameCacheSide s s' \<Longrightarrow> cInv s'"
  by (simp add: cInv_def sameCacheSide_def)

lemma cInv_saveCacheEntry: "cInv s \<Longrightarrow> cInv (saveCacheEntry u l s)"
  by (simp add: cInv_def saveCacheEntry_def Let_def distinct_update)

lemma cInv_handleResponse: "cInv s \<Longrightarrow> cInv (handleResponse loc h s)"
proof -
  assume "cInv s"
  then have "cInv (s\<lparr>handlers := remove1 h (handlers s)\<rparr>)"
    by (rule cInv_frame) simp
  then show ?thesis
    by (cases h)
       (auto simp: handleResponse_def simp del: state.simps
          intro!: cInv_same [OF _ sameCacheSide_settleRequest] cInv_saveCacheEntry)
qed

lemma cInv_fold_handleResponse: "cInv s \<Longrightarrow> cInv (fold (handleResponse loc) hs s)"
  by (induction hs arbitrary: s) (simp_all add: cInv_handleResponse)

lemma cInv_step: "cInv s \<Longrightarrow> cInv (step e s)"
proof (cases e)
  case (Tick d)
  assume "cInv s"
  then show ?thesis by (simp add: Tick cInv_def)
next
  case (Fire i)
  assume inv: "cInv s"
  let ?s = "s\<lparr>timers := take i (timers s) @ drop (Suc i) (timers s)\<rparr>"
  have inv': "cInv ?s" by (rule cInv_frame [OF inv]) simp
  have "cInv (runCallback cb ?s)" for cb
  proof (cases cb)
    case ProcessRequestQueue
    with cInv_same [OF inv' sameCacheSide_processRequestQueue] show ?thesis by simp
  next
    case ResumeLoop
    with cInv_same [OF inv' sameCacheSide_resumeLoop] show ?thesis by simp
  next
    case (RequestTimeout n rid p)
    have "cInv (?s\<lparr>handlers := remove1 (n, rid, p) (handlers ?s)\<rparr>)"
      by (rule cInv_frame [OF inv']) simp
    then have "cInv (settleRequest p (Resolved None)
        (saveCacheEntry n None (?s\<lparr>handlers := remove1 (n, rid, p) (handlers ?s)\<rparr>)))"
      by (intro cInv_same [OF _ sameCacheSide_settleRequest] cInv_saveCacheEntry)
    with RequestTimeout show ?thesis by simp
  next
    case PersistCache
    with inv' show ?thesis by (simp add: cInv_def saveCache_def Let_def)
  next
    case IntervalSave
    with inv' show ?thesis by (simp add: cInv_def saveCache_def Let_def)
  qed
  with inv show ?thesis by (simp add: Fire)
next
  case (Message m)
  assume inv: "cInv s"
  have "cInv (s\<lparr>rateLimitResetTime := r\<rparr>)" for r
    by (rule cInv_frame [OF inv]) simp
  with inv show ?thesis
    by (cases m) (simp_all add: Message onMessage_def cInv_fold_handleResponse)
next
  case (GetUserLocation name)
  assume "cInv s"
  then show ?thesis
    by (simp add: GetUserLocation cInv_same [OF _ sameCacheSide_getUserLocation])
next
  case (StorageSetDone ok)
  assume "cInv s"
  then show ?thesis
    by (simp add: StorageSetDone cInv_def storageSetDone_def split: list.splits)
qed

lemma distinct_admitEntries:
  "distinct (map fst cache) \<Longrightarrow> distinct (map fst (snd (admitEntries now cached cache)))"
  by (induction now cached cache rule: admitEntries.induct) (auto simp: distinct_update)

lemma cInv_init: "cInv (init readOk (initial t0 stored))"
  by (simp add: cInv_def init_def loadCache_def storageGet_def initial_def Let_def
      distinct_admitEntries split: option.splits)

lemma cInv_act: "cInv s \<Longrightarrow> cInv (act a s)"
  by (cases a) (simp_all add: cInv_saveCacheEntry cInv_step)

lemma cInv_perform: "cInv s \<Longrightarrow> cInv (perform as s)"
  unfolding perform_def by (induction as arbitrary: s) (simp_all add: cInv_act)

text \<open>
  In every state the script can reach, by events and puts, \<open>saveCache\<close> hands to the
  storage one object. It has an entry for every entry of the in-memory map other than
  that of the handle \<open>__proto__\<close>, and no other, each with the cached location, with
  \<open>cachedAt\<close> the clock reading of the save and with the same \<open>expiry\<close>: that clock reading
  plus 30 days. The stamp depends on nothing that was stored or cached before.
\<close>

lemma saveCache_stamps:
  "setCalls (saveCache debounced (perform as (init readOk (initial t0 stored)))) =
     setCalls (perform as (init readOk (initial t0 stored))) @
       [(map (stamped (clock (perform as (init readOk (initial t0 stored)))))
           (filter (\<lambda>e. fst e \<noteq> ''__proto__'')
              (locationCache (perform as (init readOk (initial t0 stored))))),
         debounced)] \<and>
   pendingSets (saveCache debounced (perform as (init readOk (initial t0 stored)))) =
     pendingSets (perform as (init readOk (initial t0 stored))) @
       [last (setCalls (saveCache debounced (perform as (init readOk (initial t0 stored)))))]"
proof -
  let ?s = "perform as (init readOk (initial t0 stored))"
  have "cInv ?s" by (intro cInv_perform cInv_init)
  then have "buildCacheObj (clock ?s) (clock ?s + 30 * 24 * 60 * 60 * 1000) (locationCache ?s) [] =
      [] @ map (\<lambda>(u, loc). (u, Some \<lparr>location = loc,
          expiry = Some (clock ?s + 30 * 24 * 60 * 60 * 1000), cachedAt = Some (clock ?s)\<rparr>))
        (filter (\<lambda>(u, loc). u \<noteq> ''__proto__'') (locationCache ?s))"
    by (intro buildCacheObj_append) (simp_all add: cInv_def)
  moreover have "(\<lambda>(u, loc). (u, Some \<lparr>location = loc,
          expiry = Some (clock ?s + 30 * 24 * 60 * 60 * 1000), cachedAt = Some (clock ?s)\<rparr>))
      = stamped (clock ?s)"
    by (auto simp: stamped_def CACHE_EXPIRY_DAYS_def fun_eq_iff)
  moreover have "(\<lambda>(u, loc). u \<noteq> ''__proto__'') = (\<lambda>e :: string \<times> string option. fst e \<noteq> ''__proto__'')"
    by (auto simp: fun_eq_iff)
  ultimately show ?thesis
    by (simp add: saveCache_def Let_def CACHE_EXPIRY_DAYS_def)
qed

text \<open>
  Two entries cached 5 s apart are saved together: both get the same expiry, 30 days
  after the save.
\<close>

lemma saveCache_example:
  "setCalls (perform [Put ''alice'' (Some ''France''), Happens (Tick 5000), Put ''bob'' None,
       Happens (Fire 1)] (init True (initial 1700000000000 None))) =
     [([(''alice'', Some \<lparr>location = Some ''France'', expiry = Some 1702592005000,
                          cachedAt = Some 1700000005000\<rparr>),
        (''bob'', Some \<lparr>location = None, expiry = Some 1702592005000,
                        cachedAt = Some 1700000005000\<rparr>)], True)]"
  by (simp add: eval_defs)

text \<open>
  C9. The property does not hold for the handle \<open>__proto__\<close>. Its location is looked up and answered with
  \<open>France\<close>, which puts it into the in-memory map; 5 s later the debounced persist runs.
  The object that \<open>saveCache\<close> hands to the storage is empty: the assignment of line 47
  has gone to the inherited setter, so the entry of the map is not serialized.
\<close>

theorem saveCache_drops_proto:
  "locationCache (run [GetUserLocation ''__proto__'',
        Message (LocationResponse ''__proto__'' (Some ''France'') (RequestId 1700000000000 0)),
        Tick 5000]
      (init True (initial 1700000000000 None))) = [(''__proto__'', Some ''France'')] \<and>
   timers (run [GetUserLocation ''__proto__'',
        Message (LocationResponse ''__proto__'' (Some ''France'') (RequestId 1700000000000 0)),
        Tick 5000]
      (init True (initial 1700000000000 None))) ! 2 = (1700000005000, PersistCache) \<and>
   setCalls (run [GetUserLocation ''__proto__'',
        Message (LocationResponse ''__proto__'' (Some ''France'') (RequestId 1700000000000 0)),
        Tick 5000, Fire 2]
      (init True (initial 1700000000000 None))) = [([], True)]"
  by (simp add: eval_defs)

subsection \<open>Scan\<close>

lemma processUsernames_done:
  "list_all (\<lambda>c. flagAdded c = Some ''true'') cs \<Longrightarrow> processUsernames cs s = (cs, s)"
  by (induction cs) (auto simp: scanContainer_def split: option.splits)

text \<open>
  C10. For a container whose tag is \<open>'true'\<close>, whatever the state of the cache and of the
  queue: \<open>addFlagToUsername\<close> returns at once, and it and the scan of the container leave
  the container and the state as they were. The scan skips every container whose tag is
  set (a non-empty string) and is not \<open>'failed'\<close>; a pass over containers that are all
  done changes nothing.
\<close>

theorem done_is_terminal:
  "(flagAdded c = Some ''true'' \<longrightarrow>
      addFlagToUsername c name s = (Returned, c, s) \<and> scanContainer c s = (c, s)) \<and>
   (flagAdded c \<noteq> None \<and> flagAdded c \<noteq> Some [] \<and> flagAdded c \<noteq> Some ''failed'' \<longrightarrow>
      scanContainer c s = (c, s)) \<and>
   (list_all (\<lambda>c. flagAdded c = Some ''true'') cs \<longrightarrow> processUsernames cs s = (cs, s))"
  by (auto simp: addFlagToUsername_def scanContainer_def processUsernames_done
      split: option.splits)


text \<open>
  The user cell of \<open>alice\<close>, tagged \<open>'true'\<close>, is left alone although \<open>alice\<close> is not
  cached.
\<close>

theorem done_is_terminal_witness:
  "flagAdded (alice_cell (Some ''true'')) = Some ''true'' \<and>
   extractUsername (alice_cell (Some ''true'')) = Some ''alice'' \<and>
   map_of (locationCache (init True (initial 1700000000000 None))) ''alice'' = None \<and>
   addFlagToUsername (alice_cell (Some ''true'')) ''alice'' (init True (initial 1700000000000 None))
     = (Returned, alice_cell (Some ''true''), init True (initial 1700000000000 None)) \<and>
   scanContainer (alice_cell (Some ''true'')) (init True (initial 1700000000000 None))
     = (alice_cell (Some ''true''), init True (initial 1700000000000 None)) \<and>
   processUsernames [alice_cell (Some ''true''), alice_cell (Some ''true'')]
       (init True (initial 1700000000000 None))
     = ([alice_cell (Some ''true''), alice_cell (Some ''true'')],
        init True (initial 1700000000000 None))"
proof -
  have tag: "flagAdded (alice_cell (Some ''true'')) = Some ''true''"
    and name: "extractUsername (alice_cell (Some ''true'')) = Some ''alice''"
    by (simp_all add: alice_cell_def extractUsername_def matchSegment_def isProfileSegment_def
        startsWith_def)
  have miss: "map_of (locationCache (init True (initial 1700000000000 None))) ''alice'' = None"
    by (simp add: eval_defs)
  have all: "list_all (\<lambda>c. flagAdded c = Some ''true'')
      [alice_cell (Some ''true''), alice_cell (Some ''true'')]"
    by (simp add: tag)
  from done_is_terminal [of "alice_cell (Some ''true'')" "''alice''"
      "init True (initial 1700000000000 None)"
      "[alice_cell (Some ''true''), alice_cell (Some ''true'')]"] tag name miss all
  show ?thesis by blast
qed

text \<open>
  The same cell, untagged or tagged \<open>'failed'\<close>, is marked \<open>'processing'\<close> and the lookup
  is sent.
\<close>

lemma scan_unprocessed:
  "fst (scanContainer (alice_cell None) (init True (initial 1700000000000 None)))
     = alice_cell (Some ''processing'') \<and>
   outbox (snd (scanContainer (alice_cell None) (init True (initial 1700000000000 None))))
     = [(''alice'', RequestId 1700000000000 0)] \<and>
   fst (scanContainer (alice_cell (Some ''failed'')) (init True (initial 1700000000000 None)))
     = alice_cell (Some ''processing'') \<and>
   outbox (snd (scanContainer (alice_cell (Some ''failed''))
       (init True (initial 1700000000000 None))))
     = [(''alice'', RequestId 1700000000000 0)]"
  by (simp add: scanContainer_def addFlagToUsername_def alice_cell_def extractUsername_def
      matchSegment_def isProfileSegment_def startsWith_def eval_defs)

subsection \<open>Flag lookup\<close>

text \<open>Facts about the table, by evaluation.\<close>

lemma table_entries:
  "list_all (\<lambda>(k, g). k \<noteq> [] \<and> g \<noteq> [] \<and> trim k = k) COUNTRY_FLAGS"
  by code_simp

lemma table_keys_folded:
  "map (toLowerCase \<circ> fst) COUNTRY_FLAGS =
     [''afghanistan'', ''albania'', ''algeria'', ''argentina'', ''australia'', ''austria'',
      ''bangladesh'', ''belgium'', ''brazil'', ''canada'', ''chile'', ''china'', ''colombia'',
      ''czech republic'', ''denmark'', ''egypt'', ''finland'', ''france'', ''germany'',
      ''greece'', ''hong kong'', ''hungary'', ''india'', ''indonesia'', ''iran'', ''iraq'',
      ''ireland'', ''israel'', ''italy'', ''japan'', ''kenya'', ''malaysia'', ''mexico'',
      ''netherlands'', ''new zealand'', ''nigeria'', ''norway'', ''pakistan'', ''philippines'',
      ''poland'', ''portugal'', ''romania'', ''russia'', ''saudi arabia'', ''singapore'',
      ''south africa'', ''south korea'', ''spain'', ''sweden'', ''switzerland'', ''taiwan'',
      ''thailand'', ''turkey'', ''ukraine'', ''united arab emirates'', ''united kingdom'',
      ''united states'', ''venezuela'', ''vietnam'']"
  by code_simp

lemma table_keys_fold_apart: "distinct (map (toLowerCase \<circ> fst) COUNTRY_FLAGS)"
  unfolding table_keys_folded by simp

lemma prototype_folded:
  "map (\<lambda>m. toLowerCase (trim m)) Object_prototype =
     [''constructor'', ''hasownproperty'', ''isprototypeof'', ''propertyisenumerable'',
      ''tolocalestring'', ''tostring'', ''valueof'', ''__proto__'', ''__definegetter__'',
      ''__definesetter__'', ''__lookupgetter__'', ''__lookupsetter__'']"
  by code_simp

lemma prototype_fold_apart:
  "list_all (\<lambda>y. y \<notin> set (map (toLowerCase \<circ> fst) COUNTRY_FLAGS))
     (map (\<lambda>m. toLowerCase (trim m)) Object_prototype)"
  unfolding table_keys_folded prototype_folded by simp

lemma own_key:
  assumes "map_of COUNTRY_FLAGS k = Some g"
  shows "(k, g) \<in> set COUNTRY_FLAGS" and "k \<noteq> []" and "g \<noteq> []" and "trim k = k"
    and "toLowerCase (trim k) \<in> set (map (toLowerCase \<circ> fst) COUNTRY_FLAGS)"
proof -
  from assms show mem: "(k, g) \<in> set COUNTRY_FLAGS" by (rule map_of_SomeD)
  with table_entries show "k \<noteq> []" "g \<noteq> []" and t: "trim k = k"
    by (auto simp: list_all_iff)
  from mem have "(toLowerCase \<circ> fst) (k, g) \<in> set (map (toLowerCase \<circ> fst) COUNTRY_FLAGS)"
    by (simp only: set_map) (rule imageI)
  with t show "toLowerCase (trim k) \<in> set (map (toLowerCase \<circ> fst) COUNTRY_FLAGS)"
    by simp
qed

lemma prototype_apart:
  assumes "m \<in> set Object_prototype"
  shows "m \<noteq> []" and "map_of COUNTRY_FLAGS m = None"
    and "toLowerCase (trim m) \<notin> set (map (toLowerCase \<circ> fst) COUNTRY_FLAGS)"
proof -
  from assms show "m \<noteq> []" by (auto simp: Object_prototype_def)
  from assms have "toLowerCase (trim m) \<in> set (map (\<lambda>m. toLowerCase (trim m)) Object_prototype)"
    by (simp only: set_map) (rule imageI)
  with prototype_fold_apart
  show apart: "toLowerCase (trim m) \<notin> set (map (toLowerCase \<circ> fst) COUNTRY_FLAGS)"
    by (simp only: list_all_iff) blast
  show "map_of COUNTRY_FLAGS m = None"
  proof (cases "map_of COUNTRY_FLAGS m")
    case (Some g)
    from own_key(5) [OF this] apart show ?thesis by simp
  qed simp
qed

lemma scanEntries_hit:
  "distinct (map (toLowerCase \<circ> fst) tbl) \<Longrightarrow> (k, g) \<in> set tbl \<Longrightarrow>
   toLowerCase n = toLowerCase k \<Longrightarrow> scanEntries tbl n = Glyph g"
proof (induction tbl)
  case Nil
  then show ?case by simp
next
  case (Cons e tbl)
  obtain k' g' where e: "e = (k', g')" by (cases e)
  show ?case
  proof (cases "toLowerCase k' = toLowerCase n")
    case True
    with Cons.prems e have "(k, g) \<notin> set tbl"
      by (force simp: image_iff)
    with Cons.prems e True show ?thesis by auto
  next
    case False
    with Cons e show ?thesis by auto
  qed
qed

lemma scanEntries_miss:
  "toLowerCase n \<notin> set (map (toLowerCase \<circ> fst) tbl) \<Longrightarrow> scanEntries tbl n = Null"
  by (induction tbl) auto

text \<open>What \<open>getCountryFlag\<close> returns, case by case.\<close>

lemma getCountryFlag_absent:
  "getCountryFlag None = Null \<and> getCountryFlag (Some []) = Null"
  by simp

lemma getCountryFlag_exact:
  assumes "map_of COUNTRY_FLAGS k = Some g"
  shows "getCountryFlag (Some k) = Glyph g"
  using assms own_key(2,3) [OF assms] by (simp add: getProperty_def)

lemma getCountryFlag_folded:
  assumes k: "map_of COUNTRY_FLAGS k = Some g"
    and n: "toLowerCase (trim n) = toLowerCase k"
  shows "getCountryFlag (Some n) = Glyph g"
proof -
  note own = own_key [OF k]
  from n own(2) have ne: "n \<noteq> []" by (auto simp: trim_def toLowerCase_def)
  from own(4,5) n prototype_apart(3) [of n] have np: "n \<notin> set Object_prototype"
    by auto
  show ?thesis
  proof (cases "map_of COUNTRY_FLAGS n")
    case None
    with ne np scanEntries_hit [OF table_keys_fold_apart own(1) n] show ?thesis
      by (simp add: getProperty_def)
  next
    case (Some g')
    note own' = own_key [OF Some]
    from own'(4) n have "(toLowerCase \<circ> fst) (n, g') = (toLowerCase \<circ> fst) (k, g)" by simp
    with table_keys_fold_apart own(1) own'(1) have "(n, g') = (k, g)"
      by (meson distinct_map inj_onD)
    with Some getCountryFlag_exact show ?thesis by simp
  qed
qed

lemma getCountryFlag_inherited:
  assumes "n \<in> set Object_prototype"
  shows "getCountryFlag (Some n) = Inherited n"
  using prototype_apart [OF assms] assms by (simp add: getProperty_def)

lemma getCountryFlag_other:
  assumes "n \<notin> set Object_prototype"
    and "toLowerCase (trim n) \<notin> set (map (toLowerCase \<circ> fst) COUNTRY_FLAGS)"
  shows "getCountryFlag (Some n) = Null"
proof -
  have "map_of COUNTRY_FLAGS n = None"
  proof (cases "map_of COUNTRY_FLAGS n")
    case (Some g)
    from own_key(5) [OF this] assms(2) show ?thesis by simp
  qed simp
  with assms show ?thesis
    by (simp add: getProperty_def scanEntries_miss)
qed

lemma United_Kingdom: "map_of COUNTRY_FLAGS ''United Kingdom'' = Some ''GB''"
  by (simp add: COUNTRY_FLAGS_def)

text \<open>The case variants of a known name.\<close>

lemma getCountryFlag_variants:
  "getCountryFlag (Some ''United Kingdom'') = Glyph ''GB'' \<and>
   getCountryFlag (Some ''united kingdom'') = Glyph ''GB'' \<and>
   getCountryFlag (Some ''UNITED KINGDOM'') = Glyph ''GB'' \<and>
   getCountryFlag (Some ''  United Kingdom  '') = Glyph ''GB''"
proof -
  have "toLowerCase (trim ''united kingdom'') = toLowerCase ''United Kingdom''"
    and "toLowerCase (trim ''UNITED KINGDOM'') = toLowerCase ''United Kingdom''"
    and "toLowerCase (trim ''  United Kingdom  '') = toLowerCase ''United Kingdom''"
    by code_simp+
  then show ?thesis
    by (intro conjI getCountryFlag_folded [OF United_Kingdom]
        getCountryFlag_exact [OF United_Kingdom])
qed

text \<open>
  C5. The string \<open>constructor\<close> is not a key of the table, and its trimmed, case-folded form
  is the case-folded form of no key, so the case-insensitive scan finds nothing for it. Yet
  \<open>getCountryFlag\<close> does not return \<open>null\<close> for it: the property read of the exact match
  finds the member that the table inherits from \<open>Object.prototype\<close>, and returns it.
\<close>

theorem getCountryFlag_constructor:
  "getCountryFlag (Some ''constructor'') = Inherited ''constructor'' \<and>
   map_of COUNTRY_FLAGS ''constructor'' = None \<and>
   scanEntries COUNTRY_FLAGS (trim ''constructor'') = Null"
proof -
  have m: "''constructor'' \<in> set Object_prototype"
    by (simp add: Object_prototype_def)
  from getCountryFlag_inherited [OF m] prototype_apart(2,3) [OF m] show ?thesis
    by (simp add: scanEntries_miss)
qed

end
